theory Spec2Isabelle
  imports Main
begin

section \<open>The streaming command executor of \<^verbatim>\<open>src/utils/streaming-exec.ts\<close>\<close>

text \<open>
  The executor spawns a child process and reacts to callbacks of the event loop: data and
  end events of the two output streams, the exit and error events of the child, two
  timers, and the resumption of \<^verbatim>\<open>executeWithSpinner\<close> once the promise it waits for
  has been settled. The embedding keeps the closure variables of \<^verbatim>\<open>execute\<close> and the fields of
  the \<^verbatim>\<open>StreamingExecutor\<close> object in one record, turns every callback into a function
  on that record, and records everything the callbacks do to the outside world (terminal
  writes, killing the child, clearing the timer, settling the promise) in a chronological
  log. Which callback runs next is decided by the environment, so an execution is a list of
  events folded over the initial state.
\<close>

subsection \<open>Strings\<close>

text \<open>\<^verbatim>\<open>Array.prototype.join\<close> on an array of strings.\<close>

fun join :: "string \<Rightarrow> string list \<Rightarrow> string" where
  "join sep [] = []"
| "join sep [x] = x"
| "join sep (x # y # ys) = x @ sep @ join sep (y # ys)"

text \<open>\<^verbatim>\<open>String.prototype.split\<close> with a one-character separator: the empty string
  yields one empty piece, and a trailing separator yields a trailing empty piece.\<close>

fun split :: "char \<Rightarrow> string \<Rightarrow> string list" where
  "split sep [] = [[]]"
| "split sep (c # cs) =
     (if c = sep then [] # split sep cs
      else (case split sep cs of
              [] \<Rightarrow> [[c]]
            | w # ws \<Rightarrow> (c # w) # ws))"

text \<open>\<^verbatim>\<open>String.prototype.trim\<close>. Characters are bytes here, so the white space
  removed is the ASCII part of what JavaScript removes: tab, line feed, vertical tab, form
  feed, carriage return and space.\<close>

definition is_space :: "char \<Rightarrow> bool" where
  "is_space c = (c \<in> {CHR 0x09, CHR 0x0A, CHR 0x0B, CHR 0x0C, CHR 0x0D, CHR 0x20})"

definition trim :: "string \<Rightarrow> string" where
  "trim s = rev (dropWhile is_space (rev (dropWhile is_space s)))"

text \<open>Decimal rendering of a number in a template literal, for integers.\<close>

definition digit_char :: "nat \<Rightarrow> char" where
  "digit_char d = ''0123456789'' ! d"

fun string_of_nat :: "nat \<Rightarrow> string" where
  "string_of_nat n =
     (if n < 10 then [digit_char n]
      else string_of_nat (n div 10) @ [digit_char (n mod 10)])"

declare string_of_nat.simps [simp del]

definition string_of_int :: "int \<Rightarrow> string" where
  "string_of_int i =
     (if i < 0 then CHR ''-'' # string_of_nat (nat (- i)) else string_of_nat (nat i))"

subsection \<open>What a callback does to the outside world\<close>

datatype colour = Blue | Gray

text \<open>\<^verbatim>\<open>new Error(message)\<close>; the error event of the child carries such an object too.\<close>

datatype js_error = Error string

datatype effect =
    StdoutWrite string
  | ConsoleLog colour string
  | SpinnerStop
  | ChildKill
  | ClearTimeout
  | Resolve
  | Reject js_error
  | SpinnerStart string
  | SpinnerSucceed string
  | SpinnerFail string
  | Throw js_error

subsection \<open>The executor object and one execution\<close>

text \<open>The fields of the class. \<^verbatim>\<open>currentSpinner\<close> is either null or a spinner
  object; only whether it is set matters to the executor. The JavaScript numbers that count
  lines, give exit codes or read the clock are integers here.\<close>

record StreamingExecutor =
  outputBuffer :: "string list"
  maxLines :: int
  currentSpinner :: bool

record StreamingExecOptions =
  opt_cwd :: "string option"
  opt_maxLines :: "int option"
  opt_showOutput :: "bool option"

text \<open>One call of \<^verbatim>\<open>execute\<close>: the object's fields, the arguments, the closure
  variables, the two timers (a pending timer is its delay in milliseconds) and the log.
  When the call was made by \<^verbatim>\<open>executeWithSpinner\<close>, which then waits for the promise,
  \<^verbatim>\<open>spinnerText\<close> holds the text of its spinner until it has resumed.\<close>

record execution = StreamingExecutor +
  command :: string
  args :: "string list"
  cwd :: "string option"
  showOutput :: bool
  hasStdout :: bool
  hasStderr :: bool
  hasOutput :: bool
  resolved :: bool
  lastDisplayUpdate :: int
  stdoutEnded :: bool
  stderrEnded :: bool
  processExited :: bool
  exitCode :: "int option"
  overallTimeout :: "nat option"
  graceTimers :: "nat list"
  spinnerText :: "string option"
  log :: "effect list"

definition new_StreamingExecutor :: "int option \<Rightarrow> StreamingExecutor" where
  "new_StreamingExecutor m =
     \<lparr>outputBuffer = [], maxLines = (case m of None \<Rightarrow> 10 | Some n \<Rightarrow> n),
      currentSpinner = False\<rparr>"

definition emit :: "effect list \<Rightarrow> execution \<Rightarrow> execution" where
  "emit es s = s\<lparr>log := log s @ es\<rparr>"

text \<open>The calls of \<^verbatim>\<open>resolve\<close> and \<^verbatim>\<open>reject\<close> in the log, in order.\<close>

fun is_settle :: "effect \<Rightarrow> bool" where
  "is_settle Resolve = True"
| "is_settle (Reject e) = True"
| "is_settle _ = False"

definition settlements :: "execution \<Rightarrow> effect list" where
  "settlements s = filter is_settle (log s)"

definition addToBuffer :: "execution \<Rightarrow> string \<Rightarrow> execution" where
  "addToBuffer s line =
     (let s1 = s\<lparr>outputBuffer := outputBuffer s @ [line]\<rparr>
      in if int (length (outputBuffer s1)) > maxLines s1
         then s1\<lparr>outputBuffer := tl (outputBuffer s1)\<rparr>
         else s1)"

text \<open>The escape sequences: cursor up by the number of buffered lines plus one, then
  erase to the end of the screen.\<close>

definition cursor_up :: "nat \<Rightarrow> string" where
  "cursor_up n = CHR 0x1B # ''['' @ string_of_nat n @ ''A''"

definition erase_below :: string where
  "erase_below = CHR 0x1B # ''[0J''"

text \<open>The command line is echoed after a black right-pointing triangle (U+25B6, three
  bytes in UTF-8) and a space.\<close>

definition echo_prefix :: string where
  "echo_prefix = [CHR 0xE2, CHR 0x96, CHR 0xB6, CHR '' '']"

definition updateDisplay :: "execution \<Rightarrow> string \<Rightarrow> execution" where
  "updateDisplay s cmd =
     (let hadSpinner = currentSpinner s;
          s1 = (if currentSpinner s then emit [SpinnerStop] s else s);
          s2 = (if \<not> hadSpinner \<and> length (outputBuffer s1) > 0
                then emit [StdoutWrite (cursor_up (length (outputBuffer s1) + 1)),
                           StdoutWrite erase_below] s1
                else s1);
          s3 = emit [ConsoleLog Blue (echo_prefix @ cmd)] s2
      in emit (map (\<lambda>line. ConsoleLog Gray (''  '' @ line)) (outputBuffer s3)) s3)"

definition clearDisplay :: "execution \<Rightarrow> execution" where
  "clearDisplay s =
     (let s1 = (if length (outputBuffer s) > 0
                then emit [StdoutWrite (cursor_up (length (outputBuffer s) + 1)),
                           StdoutWrite erase_below] s
                else s)
      in s1\<lparr>outputBuffer := []\<rparr>)"

text \<open>The command line as the executor prints it.\<close>

definition command_line :: "execution \<Rightarrow> string" where
  "command_line s = command s @ '' '' @ join '' '' (args s)"

text \<open>\<^verbatim>\<open>execute\<close> up to the point where it returns the pending promise: the buffer is
  reset, the child is spawned with both output streams piped, and the overall timer is
  started. Whether the child object has its two streams is the environment's answer.\<close>

definition execute :: "StreamingExecutor \<Rightarrow> string \<Rightarrow> string list \<Rightarrow> StreamingExecOptions
    \<Rightarrow> bool \<Rightarrow> bool \<Rightarrow> execution" where
  "execute this cmd as opts child_stdout child_stderr =
     \<lparr>outputBuffer = [], maxLines = maxLines this, currentSpinner = currentSpinner this,
      command = cmd, args = as, cwd = opt_cwd opts,
      showOutput = (case opt_showOutput opts of None \<Rightarrow> True | Some b \<Rightarrow> b),
      hasStdout = child_stdout, hasStderr = child_stderr,
      hasOutput = False, resolved = False, lastDisplayUpdate = 0,
      stdoutEnded = (\<not> child_stdout), stderrEnded = (\<not> child_stderr),
      processExited = False, exitCode = None,
      overallTimeout = Some 30000, graceTimers = [], spinnerText = None, log = []\<rparr>"

text \<open>\<^verbatim>\<open>executeWithSpinner\<close> up to the point where it waits for the promise: it starts
  a spinner, stores it in the object and calls \<^verbatim>\<open>execute\<close> with \<^verbatim>\<open>showOutput\<close> forced
  to true. What the spinner itself draws belongs to its library; the log holds the calls
  made to it.\<close>

definition executeWithSpinner :: "StreamingExecutor \<Rightarrow> string \<Rightarrow> string list \<Rightarrow> string
    \<Rightarrow> StreamingExecOptions \<Rightarrow> bool \<Rightarrow> bool \<Rightarrow> execution" where
  "executeWithSpinner this cmd as text opts child_stdout child_stderr =
     (execute (this\<lparr>currentSpinner := True\<rparr>) cmd as (opts\<lparr>opt_showOutput := Some True\<rparr>)
        child_stdout child_stderr)
       \<lparr>spinnerText := Some text, log := [SpinnerStart text]\<rparr>"

text \<open>\<^verbatim>\<open>executeWithSpinner\<close> from the point where the promise has been settled with the
  given outcome: the spinner is marked as succeeded, or as failed and the error thrown on,
  and in both cases the spinner is taken out of the object.\<close>

definition executeWithSpinner_resume :: "execution \<Rightarrow> string \<Rightarrow> effect \<Rightarrow> execution" where
  "executeWithSpinner_resume s text outcome =
     (let s1 = (case outcome of
                  Resolve \<Rightarrow> emit [SpinnerSucceed text] s
                | Reject err \<Rightarrow> emit [SpinnerFail (text @ '' - Failed''), Throw err] s
                | _ \<Rightarrow> s)
      in s1\<lparr>currentSpinner := False, spinnerText := None\<rparr>)"

text \<open>The callback of the overall timer.\<close>

definition overallTimeout_callback :: "execution \<Rightarrow> execution" where
  "overallTimeout_callback s =
     (if \<not> resolved s then
        (let s1 = emit [ChildKill] (s\<lparr>resolved := True\<rparr>);
             s2 = (if showOutput s1 then clearDisplay s1 else s1)
         in emit [Reject (Error (''Command timed out after 30 seconds: '' @ command_line s2))] s2)
      else s)"

text \<open>\<^verbatim>\<open>processOutput\<close>: the chunk is split into lines, blank lines are dropped, the
  others are trimmed and buffered; then the display may be redrawn. \<^verbatim>\<open>now\<close> is what
  \<^verbatim>\<open>Date.now()\<close> returns when it is read.\<close>

definition processOutput :: "execution \<Rightarrow> string \<Rightarrow> bool \<Rightarrow> int \<Rightarrow> execution" where
  "processOutput s data isError now =
     (let lines = filter (\<lambda>line. trim line \<noteq> []) (split CHR 0x0A data);
          s1 = foldl (\<lambda>t line. (addToBuffer t (trim line))\<lparr>hasOutput := True\<rparr>) s lines
      in if showOutput s1 \<and> hasOutput s1 \<and> \<not> currentSpinner s1 then
           (if now - lastDisplayUpdate s1 \<ge> 100
            then (updateDisplay s1 (command_line s1))\<lparr>lastDisplayUpdate := now\<rparr>
            else s1)
         else s1)"

definition checkCompletion :: "execution \<Rightarrow> execution" where
  "checkCompletion s =
     (if processExited s \<and> stdoutEnded s \<and> stderrEnded s \<and> \<not> resolved s then
        (let s1 = emit [ClearTimeout] (s\<lparr>resolved := True, overallTimeout := None\<rparr>);
             s2 = (if \<not> showOutput s1 then clearDisplay s1 else s1)
         in case exitCode s2 of
              None \<Rightarrow> emit [Resolve] s2
            | Some code \<Rightarrow>
                if code = 0 then emit [Resolve] s2
                else
                  (let errorOutput =
                         (if length (outputBuffer s2) > 0
                          then CHR 0x0A # join [CHR 0x0A] (outputBuffer s2) else [])
                   in emit [Reject (Error (''Command failed with exit code ''
                                            @ string_of_int code @ errorOutput))] s2))
      else s)"

text \<open>The callback of the grace timer that the exit handler starts.\<close>

definition graceTimer_callback :: "execution \<Rightarrow> execution" where
  "graceTimer_callback s =
     (if \<not> resolved s
      then checkCompletion (s\<lparr>stdoutEnded := True, stderrEnded := True\<rparr>)
      else s)"

definition on_exit :: "execution \<Rightarrow> int option \<Rightarrow> execution" where
  "on_exit s code =
     checkCompletion
       (s\<lparr>processExited := True, exitCode := code, graceTimers := graceTimers s @ [100]\<rparr>)"

definition on_error :: "execution \<Rightarrow> js_error \<Rightarrow> execution" where
  "on_error s err =
     (if resolved s then s
      else
        (let s1 = emit [ClearTimeout] (s\<lparr>resolved := True, overallTimeout := None\<rparr>);
             s2 = (if showOutput s1 then clearDisplay s1 else s1)
         in emit [Reject err] s2))"

subsection \<open>The event loop\<close>

text \<open>A data event carries its chunk and the clock value read while it is handled. A
  stream that does not exist has no handlers. A timer runs its callback once, and only
  while it is pending. A caller that waits for the promise resumes once, and only when the
  promise has been settled.\<close>

datatype event =
    StdoutData string int
  | StderrData string int
  | StdoutEnd
  | StderrEnd
  | Exit "int option"
  | ChildError js_error
  | OverallTimeoutFires
  | GraceTimerFires
  | AwaitResumes

fun step :: "execution \<Rightarrow> event \<Rightarrow> execution" where
  "step s (StdoutData d now) = (if hasStdout s then processOutput s d False now else s)"
| "step s (StderrData d now) = (if hasStderr s then processOutput s d True now else s)"
| "step s StdoutEnd = (if hasStdout s then checkCompletion (s\<lparr>stdoutEnded := True\<rparr>) else s)"
| "step s StderrEnd = (if hasStderr s then checkCompletion (s\<lparr>stderrEnded := True\<rparr>) else s)"
| "step s (Exit code) = on_exit s code"
| "step s (ChildError err) = on_error s err"
| "step s OverallTimeoutFires =
     (case overallTimeout s of
        None \<Rightarrow> s
      | Some ms \<Rightarrow> overallTimeout_callback (s\<lparr>overallTimeout := None\<rparr>))"
| "step s GraceTimerFires =
     (case graceTimers s of
        [] \<Rightarrow> s
      | ms # rest \<Rightarrow> graceTimer_callback (s\<lparr>graceTimers := rest\<rparr>))"
| "step s AwaitResumes =
     (case spinnerText s of
        None \<Rightarrow> s
      | Some text \<Rightarrow>
          (case settlements s of
             [] \<Rightarrow> s
           | outcome # others \<Rightarrow> executeWithSpinner_resume s text outcome))"

definition run :: "execution \<Rightarrow> event list \<Rightarrow> execution" where
  "run s evs = foldl step s evs"

section \<open>Notions used in the proofs\<close>

text \<open>A callback that only touches the buffer, the output flag, the redraw time stamp and
  the log leaves the rest of the state alone.\<close>

definition display_only :: "execution \<Rightarrow> execution \<Rightarrow> bool" where
  "display_only s t \<longleftrightarrow>
     t = s\<lparr>outputBuffer := outputBuffer t, hasOutput := hasOutput t,
           lastDisplayUpdate := lastDisplayUpdate t, log := log t\<rparr>"

text \<open>What \<^verbatim>\<open>clearDisplay\<close> writes for a given buffer, the message of a failed command,
  and the call that settles the promise in the completion check.\<close>

definition clear_writes :: "string list \<Rightarrow> effect list" where
  "clear_writes buf =
     (if length buf > 0
      then [StdoutWrite (cursor_up (length buf + 1)), StdoutWrite erase_below] else [])"

definition failure_message :: "int \<Rightarrow> string list \<Rightarrow> string" where
  "failure_message code buf =
     ''Command failed with exit code '' @ string_of_int code
       @ (if length buf > 0 then CHR 0x0A # join [CHR 0x0A] buf else [])"

definition completion_settle :: "int option \<Rightarrow> string list \<Rightarrow> effect" where
  "completion_settle code buf =
     (case code of
        None \<Rightarrow> Resolve
      | Some c \<Rightarrow> if c = 0 then Resolve else Reject (Error (failure_message c buf)))"

text \<open>The bookkeeping of an execution: the flag \<^verbatim>\<open>resolved\<close> is set exactly when the
  promise has been settled, which then has happened once; the overall timer is pending
  exactly while the flag is unset; a completion check has run whenever its three conditions
  hold; and a missing stream counts as ended.\<close>

definition consistent :: "execution \<Rightarrow> bool" where
  "consistent s \<longleftrightarrow>
     (resolved s \<longrightarrow> overallTimeout s = None \<and> length (settlements s) = 1) \<and>
     (\<not> resolved s \<longrightarrow> overallTimeout s \<noteq> None \<and> settlements s = []) \<and>
     (processExited s \<and> stdoutEnded s \<and> stderrEnded s \<longrightarrow> resolved s) \<and>
     (\<not> hasStdout s \<longrightarrow> stdoutEnded s) \<and>
     (\<not> hasStderr s \<longrightarrow> stderrEnded s)"

text \<open>What stays fixed during an execution. The spinner does not: it is taken out of the
  object when \<^verbatim>\<open>executeWithSpinner\<close> resumes.\<close>

definition same_setup :: "execution \<Rightarrow> execution \<Rightarrow> bool" where
  "same_setup s t \<longleftrightarrow>
     maxLines t = maxLines s \<and>
     command t = command s \<and> args t = args s \<and> cwd t = cwd s \<and>
     showOutput t = showOutput s \<and> hasStdout t = hasStdout s \<and> hasStderr t = hasStderr s"

text \<open>The buffer respects a non-negative capacity.\<close>

definition within_capacity :: "execution \<Rightarrow> bool" where
  "within_capacity s \<longleftrightarrow> 0 \<le> maxLines s \<and> int (length (outputBuffer s)) \<le> maxLines s"

text \<open>A concrete execution for the examples: \<^verbatim>\<open>git pull origin\<close> with both streams
  piped, on an executor built with the given capacity, with the given \<^verbatim>\<open>showOutput\<close>
  option and with or without a spinner stored in the object. The options carry a
  \<^verbatim>\<open>maxLines\<close> of 3.\<close>

definition fixture :: "int option \<Rightarrow> bool option \<Rightarrow> bool \<Rightarrow> execution" where
  "fixture m show_opt spinner =
     execute ((new_StreamingExecutor m)\<lparr>currentSpinner := spinner\<rparr>) ''git'' [''pull'', ''origin'']
       \<lparr>opt_cwd = None, opt_maxLines = Some 3, opt_showOutput = show_opt\<rparr> True True"

text \<open>The flags of an execution are only ever set, never reset.\<close>

definition progress :: "execution \<Rightarrow> execution \<Rightarrow> bool" where
  "progress s t \<longleftrightarrow>
     (resolved s \<longrightarrow> resolved t) \<and> (processExited s \<longrightarrow> processExited t) \<and>
     (stdoutEnded s \<longrightarrow> stdoutEnded t) \<and> (stderrEnded s \<longrightarrow> stderrEnded t)"

text \<open>The grace timer has run its callback: after the first exit event, a firing of the
  grace timer follows.\<close>

fun grace_elapsed :: "event list \<Rightarrow> bool" where
  "grace_elapsed [] = False"
| "grace_elapsed (Exit code # evs) = (GraceTimerFires \<in> set evs)"
| "grace_elapsed (e # evs) = grace_elapsed evs"

text \<open>The flags and timers that the completion check reads but does not write.\<close>

definition same_flags :: "execution \<Rightarrow> execution \<Rightarrow> bool" where
  "same_flags s t \<longleftrightarrow>
     processExited t = processExited s \<and> stdoutEnded t = stdoutEnded s \<and>
     stderrEnded t = stderrEnded s \<and> exitCode t = exitCode s \<and>
     graceTimers t = graceTimers s"

text \<open>What the flags of an execution say about the events it has received.\<close>

definition flags_from_events :: "event list \<Rightarrow> execution \<Rightarrow> bool" where
  "flags_from_events evs s \<longleftrightarrow>
     (processExited s \<or> graceTimers s \<noteq> [] \<longrightarrow> (\<exists>code. Exit code \<in> set evs)) \<and>
     (hasStdout s \<and> stdoutEnded s \<longrightarrow> StdoutEnd \<in> set evs \<or> grace_elapsed evs) \<and>
     (hasStderr s \<and> stderrEnded s \<longrightarrow> StderrEnd \<in> set evs \<or> grace_elapsed evs)"

text \<open>What the executor draws: the echoed command line, the buffered lines, and stopping
  the spinner to draw over it.\<close>

fun is_draw :: "effect \<Rightarrow> bool" where
  "is_draw (ConsoleLog c t) = True"
| "is_draw SpinnerStop = True"
| "is_draw _ = False"

text \<open>A spinner is stored in the object, nothing has been drawn and the redraw time
  stamp is untouched.\<close>

definition undrawn :: "execution \<Rightarrow> bool" where
  "undrawn s \<longleftrightarrow> currentSpinner s \<and> filter is_draw (log s) = [] \<and> lastDisplayUpdate s = 0"

text \<open>The lines of a chunk that \<^verbatim>\<open>processOutput\<close> hands to the buffer.\<close>

definition buffered_lines :: "string \<Rightarrow> string list" where
  "buffered_lines d = map trim (filter (\<lambda>line. trim line \<noteq> []) (split CHR 0x0A d))"

text \<open>Events that end an execution without the completion check, events that are not an
  exit with another code than the given one, and the replacement of a null exit code by 0.\<close>

fun ends_execution :: "event \<Rightarrow> bool" where
  "ends_execution OverallTimeoutFires = True"
| "ends_execution (ChildError err) = True"
| "ends_execution _ = False"

fun exits_with :: "int option \<Rightarrow> event \<Rightarrow> bool" where
  "exits_with c (Exit code) = (code = c)"
| "exits_with c _ = True"

fun null_as_zero :: "event \<Rightarrow> event" where
  "null_as_zero (Exit None) = Exit (Some 0)"
| "null_as_zero e = e"

text \<open>An execution on its way to success: the exit code, if any, is 0, and the promise is
  either pending or resolved.\<close>

definition succeeding :: "execution \<Rightarrow> bool" where
  "succeeding s \<longleftrightarrow>
     (exitCode s = None \<or> exitCode s = Some 0) \<and>
     (resolved s \<longrightarrow> settlements s = [Resolve]) \<and>
     (\<not> resolved s \<longrightarrow> settlements s = [])"

text \<open>Two executions that differ at most in a null exit code on one side and 0 on the
  other.\<close>

definition null_for_zero :: "execution \<Rightarrow> execution \<Rightarrow> bool" where
  "null_for_zero s t \<longleftrightarrow>
     t = s\<lparr>exitCode := exitCode t\<rparr> \<and>
     (exitCode s = exitCode t \<or> exitCode s = None \<and> exitCode t = Some 0)"

text \<open>The process has exited, and its grace timer is pending unless the promise is settled.\<close>

definition awaiting_grace :: "execution \<Rightarrow> bool" where
  "awaiting_grace s \<longleftrightarrow> processExited s \<and> (graceTimers s \<noteq> [] \<or> resolved s)"

section \<open>Properties\<close>

subsection \<open>Frames and closed forms of the callbacks\<close>

lemma display_only_refl: "display_only s s"
  by (simp add: display_only_def)

lemma display_only_trans: "display_only s t \<Longrightarrow> display_only t u \<Longrightarrow> display_only s u"
  unfolding display_only_def
proof -
  assume a: "t = s\<lparr>outputBuffer := outputBuffer t, hasOutput := hasOutput t,
           lastDisplayUpdate := lastDisplayUpdate t, log := log t\<rparr>"
   and b: "u = t\<lparr>outputBuffer := outputBuffer u, hasOutput := hasOutput u,
           lastDisplayUpdate := lastDisplayUpdate u, log := log u\<rparr>"
  have "u = (s\<lparr>outputBuffer := outputBuffer t, hasOutput := hasOutput t,
           lastDisplayUpdate := lastDisplayUpdate t, log := log t\<rparr>)\<lparr>outputBuffer := outputBuffer u, hasOutput := hasOutput u,
           lastDisplayUpdate := lastDisplayUpdate u, log := log u\<rparr>"
    using a b by metis
  then show "u = s\<lparr>outputBuffer := outputBuffer u, hasOutput := hasOutput u,
           lastDisplayUpdate := lastDisplayUpdate u, log := log u\<rparr>" by simp
qed

lemma display_only_fields:
  assumes "display_only s t"
  shows "resolved t = resolved s" "overallTimeout t = overallTimeout s"
    "graceTimers t = graceTimers s" "processExited t = processExited s"
    "stdoutEnded t = stdoutEnded s" "stderrEnded t = stderrEnded s"
    "exitCode t = exitCode s" "showOutput t = showOutput s"
    "hasStdout t = hasStdout s" "hasStderr t = hasStderr s"
    "maxLines t = maxLines s" "currentSpinner t = currentSpinner s"
    "command t = command s" "args t = args s" "cwd t = cwd s"
proof -
  have t: "t = s\<lparr>outputBuffer := outputBuffer t, hasOutput := hasOutput t,
           lastDisplayUpdate := lastDisplayUpdate t, log := log t\<rparr>"
    using assms by (simp add: display_only_def)
  show "resolved t = resolved s" by (subst t) simp
  show "overallTimeout t = overallTimeout s" by (subst t) simp
  show "graceTimers t = graceTimers s" by (subst t) simp
  show "processExited t = processExited s" by (subst t) simp
  show "stdoutEnded t = stdoutEnded s" by (subst t) simp
  show "stderrEnded t = stderrEnded s" by (subst t) simp
  show "exitCode t = exitCode s" by (subst t) simp
  show "showOutput t = showOutput s" by (subst t) simp
  show "hasStdout t = hasStdout s" by (subst t) simp
  show "hasStderr t = hasStderr s" by (subst t) simp
  show "maxLines t = maxLines s" by (subst t) simp
  show "currentSpinner t = currentSpinner s" by (subst t) simp
  show "command t = command s" by (subst t) simp
  show "args t = args s" by (subst t) simp
  show "cwd t = cwd s" by (subst t) simp
qed

lemma display_only_addToBuffer: "display_only s (addToBuffer s l)"
  by (simp add: display_only_def addToBuffer_def Let_def)

lemma display_only_addLines:
  "display_only s (foldl (\<lambda>t line. (addToBuffer t (trim line))\<lparr>hasOutput := True\<rparr>) s ls)"
proof (induction ls arbitrary: s)
  case Nil
  show ?case by (simp add: display_only_refl)
next
  case (Cons l ls)
  have "display_only s ((addToBuffer s (trim l))\<lparr>hasOutput := True\<rparr>)"
    by (simp add: display_only_def addToBuffer_def Let_def)
  then show ?case
    using Cons.IH display_only_trans by fastforce
qed

lemma display_only_updateDisplay: "display_only s (updateDisplay s c)"
  by (simp add: display_only_def updateDisplay_def emit_def Let_def)

lemma display_only_processOutput: "display_only s (processOutput s d e now)"
proof -
  let ?s1 = "foldl (\<lambda>t line. (addToBuffer t (trim line))\<lparr>hasOutput := True\<rparr>) s
               (filter (\<lambda>line. trim line \<noteq> []) (split CHR 0x0A d))"
  have 1: "display_only s ?s1" by (rule display_only_addLines)
  have 2: "display_only ?s1 ((updateDisplay ?s1 (command_line ?s1))\<lparr>lastDisplayUpdate := now\<rparr>)"
    by (simp add: display_only_def updateDisplay_def emit_def Let_def)
  show ?thesis
    unfolding processOutput_def Let_def
    using 1 2 display_only_trans by presburger
qed

lemma clearDisplay_eq:
  "clearDisplay s = s\<lparr>log := log s @ clear_writes (outputBuffer s), outputBuffer := []\<rparr>"
  by (simp add: clearDisplay_def clear_writes_def emit_def Let_def)

lemma settle_clear_writes [simp]: "filter is_settle (clear_writes buf) = []"
  by (simp add: clear_writes_def)

lemma is_settle_completion [simp]: "is_settle (completion_settle code buf)"
  by (simp add: completion_settle_def split: option.splits)

lemma checkCompletion_idle:
  "\<not> (processExited s \<and> stdoutEnded s \<and> stderrEnded s \<and> \<not> resolved s) \<Longrightarrow> checkCompletion s = s"
  unfolding checkCompletion_def by (simp only: if_False)

lemma checkCompletion_ready:
  assumes "processExited s" "stdoutEnded s" "stderrEnded s" "\<not> resolved s"
  shows "checkCompletion s =
     s\<lparr>resolved := True, overallTimeout := None,
       log := log s @ [ClearTimeout]
                @ (if showOutput s then [] else clear_writes (outputBuffer s))
                @ [completion_settle (exitCode s) (if showOutput s then outputBuffer s else [])],
       outputBuffer := (if showOutput s then outputBuffer s else [])\<rparr>"
  using assms
  by (simp add: checkCompletion_def clearDisplay_eq emit_def Let_def completion_settle_def
      failure_message_def split: option.splits)

lemma overallTimeout_callback_eq:
  "overallTimeout_callback s =
     (if resolved s then s
      else s\<lparr>resolved := True,
             log := log s @ [ChildKill]
                      @ (if showOutput s then clear_writes (outputBuffer s) else [])
                      @ [Reject (Error (''Command timed out after 30 seconds: '' @ command_line s))],
             outputBuffer := (if showOutput s then [] else outputBuffer s)\<rparr>)"
  by (simp add: overallTimeout_callback_def clearDisplay_eq emit_def Let_def command_line_def)

lemma on_error_eq:
  "on_error s err =
     (if resolved s then s
      else s\<lparr>resolved := True, overallTimeout := None,
             log := log s @ [ClearTimeout]
                      @ (if showOutput s then clear_writes (outputBuffer s) else [])
                      @ [Reject err],
             outputBuffer := (if showOutput s then [] else outputBuffer s)\<rparr>)"
  by (simp add: on_error_def clearDisplay_eq emit_def Let_def)

lemma log_addLines:
  "log (foldl (\<lambda>t line. (addToBuffer t (trim line))\<lparr>hasOutput := True\<rparr>) s ls) = log s"
  by (induction ls arbitrary: s) (simp_all add: addToBuffer_def Let_def)

lemma lastDisplayUpdate_addLines:
  "lastDisplayUpdate (foldl (\<lambda>t line. (addToBuffer t (trim line))\<lparr>hasOutput := True\<rparr>) s ls)
     = lastDisplayUpdate s"
  by (induction ls arbitrary: s) (simp_all add: addToBuffer_def Let_def)

lemma settlements_updateDisplay: "settlements (updateDisplay s c) = settlements s"
  by (simp add: settlements_def updateDisplay_def emit_def Let_def filter_map o_def)

lemma settlements_processOutput: "settlements (processOutput s d e now) = settlements s"
  unfolding processOutput_def Let_def
  using settlements_updateDisplay [of "foldl (\<lambda>t line. (addToBuffer t (trim line))\<lparr>hasOutput := True\<rparr>) s
               (filter (\<lambda>line. trim line \<noteq> []) (split CHR 0x0A d))"]
  by (simp add: settlements_def log_addLines)

lemma await_resumes_fields:
  "resolved (step s AwaitResumes) = resolved s"
  "overallTimeout (step s AwaitResumes) = overallTimeout s"
  "graceTimers (step s AwaitResumes) = graceTimers s"
  "processExited (step s AwaitResumes) = processExited s"
  "stdoutEnded (step s AwaitResumes) = stdoutEnded s"
  "stderrEnded (step s AwaitResumes) = stderrEnded s"
  "exitCode (step s AwaitResumes) = exitCode s"
  "showOutput (step s AwaitResumes) = showOutput s"
  "hasStdout (step s AwaitResumes) = hasStdout s"
  "hasStderr (step s AwaitResumes) = hasStderr s"
  "maxLines (step s AwaitResumes) = maxLines s"
  "command (step s AwaitResumes) = command s"
  "args (step s AwaitResumes) = args s"
  "cwd (step s AwaitResumes) = cwd s"
  "outputBuffer (step s AwaitResumes) = outputBuffer s"
  "lastDisplayUpdate (step s AwaitResumes) = lastDisplayUpdate s"
  by (simp_all add: executeWithSpinner_resume_def emit_def Let_def
      split: option.splits list.splits effect.splits)

lemma settlements_await_resumes: "settlements (step s AwaitResumes) = settlements s"
  by (simp add: executeWithSpinner_resume_def emit_def Let_def settlements_def
      split: option.splits list.splits effect.splits)

lemma await_resumes_unsettled: "settlements s = [] \<Longrightarrow> step s AwaitResumes = s"
  by (simp split: option.splits)

lemma await_resumes_spinner: "currentSpinner (step s AwaitResumes) \<Longrightarrow> step s AwaitResumes = s"
  by (simp add: executeWithSpinner_resume_def Let_def split: option.splits list.splits)

lemma await_resumes_exitCode:
  "step (s\<lparr>exitCode := c\<rparr>) AwaitResumes = (step s AwaitResumes)\<lparr>exitCode := c\<rparr>"
  by (simp add: executeWithSpinner_resume_def emit_def Let_def settlements_def
      split: option.splits list.splits effect.splits)

lemma consistent_processOutput:
  "consistent s \<Longrightarrow> consistent (processOutput s d e now)"
  by (simp add: consistent_def settlements_processOutput
        display_only_fields [OF display_only_processOutput])

lemma consistent_checkCompletion:
  assumes "resolved s \<longrightarrow> overallTimeout s = None \<and> length (settlements s) = 1"
    and "\<not> resolved s \<longrightarrow> overallTimeout s \<noteq> None \<and> settlements s = []"
    and "\<not> hasStdout s \<longrightarrow> stdoutEnded s" and "\<not> hasStderr s \<longrightarrow> stderrEnded s"
  shows "consistent (checkCompletion s)"
proof (cases "processExited s \<and> stdoutEnded s \<and> stderrEnded s \<and> \<not> resolved s")
  case True
  then show ?thesis
    using assms by (simp add: checkCompletion_ready consistent_def settlements_def)
next
  case False
  then have "checkCompletion s = s" by (rule checkCompletion_idle)
  then show ?thesis using assms False by (auto simp: consistent_def)
qed

lemma consistent_step: 
  assumes c: "consistent s" shows "consistent (step s e)"
proof (cases e)
  case AwaitResumes
  then show ?thesis using c by (simp add: consistent_def await_resumes_fields settlements_await_resumes del: step.simps)
next
  case (StdoutData d n) then show ?thesis using c by (simp add: consistent_processOutput)
next
  case (StderrData d n) then show ?thesis using c by (simp add: consistent_processOutput)
next
  case StdoutEnd
  have "consistent (checkCompletion (s\<lparr>stdoutEnded := True\<rparr>))"
    by (rule consistent_checkCompletion) (use c in \<open>simp_all add: consistent_def settlements_def\<close>)
  then show ?thesis using StdoutEnd c by simp
next
  case StderrEnd
  have "consistent (checkCompletion (s\<lparr>stderrEnded := True\<rparr>))"
    by (rule consistent_checkCompletion) (use c in \<open>simp_all add: consistent_def settlements_def\<close>)
  then show ?thesis using StderrEnd c by simp
next
  case (Exit code)
  have "consistent (checkCompletion (s\<lparr>processExited := True, exitCode := code, graceTimers := graceTimers s @ [100]\<rparr>))"
    by (rule consistent_checkCompletion) (use c in \<open>simp_all add: consistent_def settlements_def\<close>)
  then show ?thesis using Exit by (simp add: on_exit_def)
next
  case (ChildError x)
  then show ?thesis using c
    by (simp add: consistent_def on_error_eq settlements_def)
next
  case OverallTimeoutFires
  then show ?thesis using c
    by (cases "overallTimeout s") (simp_all add: consistent_def overallTimeout_callback_eq settlements_def)
next
  case GraceTimerFires
  show ?thesis
  proof (cases "graceTimers s")
    case Nil
    then show ?thesis using GraceTimerFires c by simp
  next
    case (Cons m rest)
    have "consistent (checkCompletion (s\<lparr>graceTimers := rest, stdoutEnded := True, stderrEnded := True\<rparr>))"
      by (rule consistent_checkCompletion) (use c in \<open>simp_all add: consistent_def settlements_def\<close>)
    moreover have "consistent (s\<lparr>graceTimers := rest\<rparr>)"
      using c by (simp add: consistent_def settlements_def)
    ultimately show ?thesis using GraceTimerFires Cons
      by (simp add: graceTimer_callback_def)
  qed
qed

lemma consistent_run: "consistent s \<Longrightarrow> consistent (run s evs)"
  unfolding run_def by (induction evs arbitrary: s) (simp_all add: consistent_step)

lemma consistent_execute: "consistent (execute this cmd as opts so se)"
  by (simp add: consistent_def execute_def settlements_def)

lemma same_setup_checkCompletion: "same_setup s (checkCompletion s)"
  by (cases "processExited s \<and> stdoutEnded s \<and> stderrEnded s \<and> \<not> resolved s")
     (simp_all add: checkCompletion_ready checkCompletion_idle same_setup_def)

lemma same_setup_checkCompletion_upd:
  "same_setup s t \<Longrightarrow> same_setup s (checkCompletion t)"
  using same_setup_checkCompletion [of t] by (simp add: same_setup_def)

lemma same_setup_step: "same_setup s (step s e)"
proof (cases e)
  case AwaitResumes
  then show ?thesis by (simp add: same_setup_def await_resumes_fields del: step.simps)
next
  case (StdoutData d n)
  then show ?thesis
    by (simp add: same_setup_def display_only_fields [OF display_only_processOutput])
next
  case (StderrData d n)
  then show ?thesis
    by (simp add: same_setup_def display_only_fields [OF display_only_processOutput])
next
  case StdoutEnd
  have "same_setup s (checkCompletion (s\<lparr>stdoutEnded := True\<rparr>))"
    by (rule same_setup_checkCompletion_upd) (simp add: same_setup_def)
  then show ?thesis using StdoutEnd by (simp add: same_setup_def)
next
  case StderrEnd
  have "same_setup s (checkCompletion (s\<lparr>stderrEnded := True\<rparr>))"
    by (rule same_setup_checkCompletion_upd) (simp add: same_setup_def)
  then show ?thesis using StderrEnd by (simp add: same_setup_def)
next
  case (Exit code)
  have "same_setup s (checkCompletion (s\<lparr>processExited := True, exitCode := code,
                                          graceTimers := graceTimers s @ [100]\<rparr>))"
    by (rule same_setup_checkCompletion_upd) (simp add: same_setup_def)
  then show ?thesis using Exit by (simp add: on_exit_def)
next
  case (ChildError x)
  then show ?thesis by (simp add: same_setup_def on_error_eq)
next
  case OverallTimeoutFires
  then show ?thesis
    by (cases "overallTimeout s") (simp_all add: same_setup_def overallTimeout_callback_eq)
next
  case GraceTimerFires
  show ?thesis
  proof (cases "graceTimers s")
    case Nil
    then show ?thesis using GraceTimerFires by (simp add: same_setup_def)
  next
    case (Cons m rest)
    have "same_setup s (checkCompletion (s\<lparr>graceTimers := rest, stdoutEnded := True, stderrEnded := True\<rparr>))"
      by (rule same_setup_checkCompletion_upd) (simp add: same_setup_def)
    then show ?thesis using GraceTimerFires Cons
      by (simp add: graceTimer_callback_def same_setup_def)
  qed
qed

lemma same_setup_run: "same_setup s (run s evs)"
proof (induction evs arbitrary: s)
  case Nil
  show ?case by (simp add: run_def same_setup_def)
next
  case (Cons e evs)
  have "same_setup (step s e) (run (step s e) evs)" by (rule Cons.IH)
  moreover have "same_setup s (step s e)" by (rule same_setup_step)
  ultimately show ?case by (simp add: run_def same_setup_def)
qed

subsection \<open>The capacity of the buffer\<close>

text \<open>
  Claim C10. The \<^verbatim>\<open>maxLines\<close> field of the options passed to \<^verbatim>\<open>execute\<close> is never read:
  changing it does not change the execution that \<^verbatim>\<open>execute\<close> sets up, the capacity in
  force throughout any execution is the one stored in the object, and that one is the
  constructor's argument, 10 when the argument is omitted.
\<close>

theorem maxLines_option_ignored:
  "execute this cmd as (opts\<lparr>opt_maxLines := m\<rparr>) so se = execute this cmd as opts so se
   \<and> maxLines (run (execute this cmd as opts so se) evs) = maxLines this
   \<and> maxLines (new_StreamingExecutor None) = 10
   \<and> maxLines (new_StreamingExecutor (Some n)) = n"
proof -
  have "maxLines (run (execute this cmd as opts so se) evs)
          = maxLines (execute this cmd as opts so se)"
    using same_setup_run [of "execute this cmd as opts so se" evs] by (simp add: same_setup_def)
  then show ?thesis by (simp add: execute_def new_StreamingExecutor_def)
qed

theorem maxLines_option_ignored_witness:
  "maxLines (run (fixture None None False) [StdoutData ''a'' 0, Exit (Some 0)]) = 10"
  using maxLines_option_ignored [of "new_StreamingExecutor None" "''git''" "[''pull'', ''origin'']"
      "Some 3" "\<lparr>opt_cwd = None, opt_maxLines = None, opt_showOutput = None\<rparr>" True True
      "[StdoutData ''a'' 0, Exit (Some 0)]" 0]
  by (simp add: fixture_def new_StreamingExecutor_def)

subsection \<open>The ring buffer\<close>

lemma outputBuffer_addToBuffer:
  "outputBuffer (addToBuffer s l) =
     (if int (length (outputBuffer s)) + 1 > maxLines s
      then tl (outputBuffer s @ [l]) else outputBuffer s @ [l])"
  by (simp add: addToBuffer_def Let_def)

lemma maxLines_addToBuffer: "maxLines (addToBuffer s l) = maxLines s"
  by (simp add: addToBuffer_def Let_def)

lemma maxLines_foldl_addToBuffer: "maxLines (foldl addToBuffer s ls) = maxLines s"
  by (induction ls arbitrary: s) (simp_all add: maxLines_addToBuffer)

lemma tl_drop_snoc:
  "k \<le> length b \<Longrightarrow> tl (drop k b @ [l]) = drop (Suc k) (b @ [l])"
proof (induction b arbitrary: k)
  case Nil
  then show ?case by simp
next
  case (Cons x xs)
  show ?case
  proof (cases k)
    case 0
    then show ?thesis by simp
  next
    case (Suc j)
    then have "j \<le> length xs" using Cons.prems by simp
    then have "tl (drop j xs @ [l]) = drop (Suc j) (xs @ [l])" by (rule Cons.IH)
    then show ?thesis using Suc by simp
  qed
qed

lemma foldl_addToBuffer_drop:
  assumes "0 \<le> maxLines s" and "int (length (outputBuffer s)) \<le> maxLines s"
  shows "outputBuffer (foldl addToBuffer s ls)
           = drop (length (outputBuffer s @ ls) - nat (maxLines s)) (outputBuffer s @ ls)"
proof (induction ls rule: rev_induct)
  case Nil
  show ?case using assms by simp
next
  case (snoc l ls)
  define b where "b = outputBuffer s @ ls"
  define k where "k = length b - nat (maxLines s)"
  have buf: "outputBuffer (foldl addToBuffer s ls) = drop k b"
    using snoc.IH by (simp add: b_def k_def)
  have m: "maxLines (foldl addToBuffer s ls) = maxLines s" by (rule maxLines_foldl_addToBuffer)
  have goal: "outputBuffer (addToBuffer (foldl addToBuffer s ls) l)
                = drop (length (b @ [l]) - nat (maxLines s)) (b @ [l])"
  proof (cases "nat (maxLines s) \<le> length b")
    case True
    then have len: "int (length (drop k b)) = maxLines s"
      using assms(1) by (simp add: k_def)
    have "k \<le> length b" by (simp add: k_def)
    then have "tl (drop k b @ [l]) = drop (Suc k) (b @ [l])" by (rule tl_drop_snoc)
    moreover have "Suc k = length (b @ [l]) - nat (maxLines s)" using True by (simp add: k_def)
    ultimately show ?thesis
      by (simp only: outputBuffer_addToBuffer buf m len) simp
  next
    case False
    then have k0: "k = 0" and k1: "length (b @ [l]) - nat (maxLines s) = 0"
      by (simp_all add: k_def)
    have "int (length b) + 1 \<le> maxLines s" using False by simp
    then show ?thesis
      by (simp only: outputBuffer_addToBuffer buf m k0 k1) simp
  qed
  show ?case using goal by (simp add: b_def)
qed

lemma within_capacity_addToBuffer:
  "within_capacity s \<Longrightarrow> within_capacity (addToBuffer s l)"
  by (auto simp: within_capacity_def addToBuffer_def Let_def)

lemma within_capacity_addLines:
  "within_capacity s \<Longrightarrow>
   within_capacity (foldl (\<lambda>t line. (addToBuffer t (trim line))\<lparr>hasOutput := True\<rparr>) s ls)"
proof (induction ls arbitrary: s)
  case Nil
  then show ?case by simp
next
  case (Cons l ls)
  have "within_capacity (addToBuffer s (trim l))"
    using Cons.prems by (rule within_capacity_addToBuffer)
  then have "within_capacity ((addToBuffer s (trim l))\<lparr>hasOutput := True\<rparr>)"
    by (simp add: within_capacity_def)
  then show ?case using Cons.IH by simp
qed

lemma within_capacity_processOutput:
  assumes "within_capacity s" shows "within_capacity (processOutput s d e now)"
proof -
  let ?s1 = "foldl (\<lambda>t line. (addToBuffer t (trim line))\<lparr>hasOutput := True\<rparr>) s
               (filter (\<lambda>line. trim line \<noteq> []) (split CHR 0x0A d))"
  have 1: "within_capacity ?s1" using assms by (rule within_capacity_addLines)
  then have "within_capacity ((updateDisplay ?s1 (command_line ?s1))\<lparr>lastDisplayUpdate := now\<rparr>)"
    by (simp add: within_capacity_def updateDisplay_def emit_def Let_def)
  with 1 show ?thesis
    unfolding processOutput_def Let_def by presburger
qed

lemma within_capacity_checkCompletion:
  "within_capacity s \<Longrightarrow> within_capacity (checkCompletion s)"
  by (cases "processExited s \<and> stdoutEnded s \<and> stderrEnded s \<and> \<not> resolved s")
     (simp_all add: checkCompletion_ready checkCompletion_idle within_capacity_def)

lemma within_capacity_step:
  assumes w: "within_capacity s" shows "within_capacity (step s e)"
proof (cases e)
  case AwaitResumes
  then show ?thesis using w by (simp add: within_capacity_def await_resumes_fields del: step.simps)
next
  case (StdoutData d n)
  then show ?thesis using w by (simp add: within_capacity_processOutput)
next
  case (StderrData d n)
  then show ?thesis using w by (simp add: within_capacity_processOutput)
next
  case StdoutEnd
  have "within_capacity (checkCompletion (s\<lparr>stdoutEnded := True\<rparr>))"
    by (rule within_capacity_checkCompletion) (use w in \<open>simp add: within_capacity_def\<close>)
  then show ?thesis using StdoutEnd w by simp
next
  case StderrEnd
  have "within_capacity (checkCompletion (s\<lparr>stderrEnded := True\<rparr>))"
    by (rule within_capacity_checkCompletion) (use w in \<open>simp add: within_capacity_def\<close>)
  then show ?thesis using StderrEnd w by simp
next
  case (Exit code)
  have "within_capacity (checkCompletion (s\<lparr>processExited := True, exitCode := code,
                                             graceTimers := graceTimers s @ [100]\<rparr>))"
    by (rule within_capacity_checkCompletion) (use w in \<open>simp add: within_capacity_def\<close>)
  then show ?thesis using Exit by (simp add: on_exit_def)
next
  case (ChildError x)
  then show ?thesis using w by (simp add: within_capacity_def on_error_eq)
next
  case OverallTimeoutFires
  then show ?thesis using w
    by (cases "overallTimeout s") (simp_all add: within_capacity_def overallTimeout_callback_eq)
next
  case GraceTimerFires
  show ?thesis
  proof (cases "graceTimers s")
    case Nil
    then show ?thesis using GraceTimerFires w by simp
  next
    case (Cons m rest)
    have "within_capacity (checkCompletion (s\<lparr>graceTimers := rest, stdoutEnded := True, stderrEnded := True\<rparr>))"
      by (rule within_capacity_checkCompletion) (use w in \<open>simp add: within_capacity_def\<close>)
    moreover have "within_capacity (s\<lparr>graceTimers := rest\<rparr>)"
      using w by (simp add: within_capacity_def)
    ultimately show ?thesis using GraceTimerFires Cons
      by (simp add: graceTimer_callback_def)
  qed
qed

lemma within_capacity_run: "within_capacity s \<Longrightarrow> within_capacity (run s evs)"
  unfolding run_def by (induction evs arbitrary: s) (simp_all add: within_capacity_step)

text \<open>
  Claim C3. With a capacity that is not negative and a buffer within it (as the empty
  buffer at the start of every execution is), adding any sequence of lines leaves the
  buffer within the capacity; the buffer then holds the most recent lines, as many as fit,
  in the order they were added; adding a line to a full buffer drops exactly its oldest
  entry and appends the new line; and no event of an execution takes the buffer beyond
  the capacity.
\<close>

theorem ring_buffer_bounded_fifo:
  assumes "0 \<le> maxLines s" and "int (length (outputBuffer s)) \<le> maxLines s"
  shows "int (length (outputBuffer (foldl addToBuffer s ls))) \<le> maxLines s
       \<and> outputBuffer (foldl addToBuffer s ls)
           = drop (length (outputBuffer s @ ls) - nat (maxLines s)) (outputBuffer s @ ls)
       \<and> (int (length (outputBuffer s)) = maxLines s \<and> outputBuffer s \<noteq> []
            \<longrightarrow> outputBuffer (addToBuffer s l) = tl (outputBuffer s) @ [l])
       \<and> int (length (outputBuffer (run s evs))) \<le> maxLines s"
proof -
  have eq: "outputBuffer (foldl addToBuffer s ls)
              = drop (length (outputBuffer s @ ls) - nat (maxLines s)) (outputBuffer s @ ls)"
    using assms by (rule foldl_addToBuffer_drop)
  have "length (drop (length (outputBuffer s @ ls) - nat (maxLines s)) (outputBuffer s @ ls))
          \<le> nat (maxLines s)"
    by simp
  then have bound: "int (length (outputBuffer (foldl addToBuffer s ls))) \<le> maxLines s"
    using assms(1) by (simp only: eq)
  have full: "int (length (outputBuffer s)) = maxLines s \<and> outputBuffer s \<noteq> []
            \<longrightarrow> outputBuffer (addToBuffer s l) = tl (outputBuffer s) @ [l]"
    by (simp add: outputBuffer_addToBuffer)
  have "within_capacity (run s evs)"
    by (rule within_capacity_run) (use assms in \<open>simp add: within_capacity_def\<close>)
  moreover have "maxLines (run s evs) = maxLines s"
    using same_setup_run [of s evs] by (simp add: same_setup_def)
  ultimately have "int (length (outputBuffer (run s evs))) \<le> maxLines s"
    by (simp add: within_capacity_def)
  with eq bound full show ?thesis by blast
qed

theorem ring_buffer_bounded_fifo_witness:
  "0 \<le> maxLines (fixture (Some 2) None False)
   \<and> int (length (outputBuffer (fixture (Some 2) None False))) \<le> maxLines (fixture (Some 2) None False)
   \<and> outputBuffer (foldl addToBuffer (fixture (Some 2) None False) [''a'', ''b'', ''c'']) = [''b'', ''c'']
   \<and> int (length (outputBuffer (run (fixture (Some 2) None False)
            [StdoutData (''a'' @ [CHR 0x0A] @ ''b'' @ [CHR 0x0A] @ ''c'') 7]))) \<le> 2"
proof -
  have h1: "0 \<le> maxLines (fixture (Some 2) None False)"
    by (simp add: fixture_def execute_def new_StreamingExecutor_def)
  have h2: "int (length (outputBuffer (fixture (Some 2) None False))) \<le> maxLines (fixture (Some 2) None False)"
    by (simp add: fixture_def execute_def new_StreamingExecutor_def)
  have m: "maxLines (fixture (Some 2) None False) = 2"
    by (simp add: fixture_def execute_def new_StreamingExecutor_def)
  have b: "outputBuffer (fixture (Some 2) None False) = []"
    by (simp add: fixture_def execute_def new_StreamingExecutor_def)
  show ?thesis
    using h1 h2 ring_buffer_bounded_fifo [OF h1 h2, of "[''a'', ''b'', ''c'']" "''x''"
        "[StdoutData (''a'' @ [CHR 0x0A] @ ''b'' @ [CHR 0x0A] @ ''c'') 7]"]
    by (simp add: m b)
qed

subsection \<open>Settling exactly once\<close>

lemma run_Nil [simp]: "run s [] = s"
  by (simp add: run_def)

lemma run_Cons [simp]: "run s (e # evs) = run (step s e) evs"
  by (simp add: run_def)

lemma run_append: "run s (xs @ ys) = run (run s xs) ys"
  by (simp add: run_def)

lemma progress_checkCompletion: "progress s (checkCompletion s)"
  by (cases "processExited s \<and> stdoutEnded s \<and> stderrEnded s \<and> \<not> resolved s")
     (simp_all add: checkCompletion_ready checkCompletion_idle progress_def)

lemma progress_checkCompletion_upd: "progress s t \<Longrightarrow> progress s (checkCompletion t)"
  using progress_checkCompletion [of t] by (simp add: progress_def)

lemma progress_step: "progress s (step s e)"
proof (cases e)
  case AwaitResumes
  then show ?thesis by (simp add: progress_def await_resumes_fields del: step.simps)
next
  case (StdoutData d n)
  then show ?thesis
    by (simp add: progress_def display_only_fields [OF display_only_processOutput])
next
  case (StderrData d n)
  then show ?thesis
    by (simp add: progress_def display_only_fields [OF display_only_processOutput])
next
  case StdoutEnd
  have "progress s (checkCompletion (s\<lparr>stdoutEnded := True\<rparr>))"
    by (rule progress_checkCompletion_upd) (simp add: progress_def)
  then show ?thesis using StdoutEnd by (simp add: progress_def)
next
  case StderrEnd
  have "progress s (checkCompletion (s\<lparr>stderrEnded := True\<rparr>))"
    by (rule progress_checkCompletion_upd) (simp add: progress_def)
  then show ?thesis using StderrEnd by (simp add: progress_def)
next
  case (Exit code)
  have "progress s (checkCompletion (s\<lparr>processExited := True, exitCode := code,
                                        graceTimers := graceTimers s @ [100]\<rparr>))"
    by (rule progress_checkCompletion_upd) (simp add: progress_def)
  then show ?thesis using Exit by (simp add: on_exit_def)
next
  case (ChildError x)
  then show ?thesis by (simp add: progress_def on_error_eq)
next
  case OverallTimeoutFires
  then show ?thesis
    by (cases "overallTimeout s") (simp_all add: progress_def overallTimeout_callback_eq)
next
  case GraceTimerFires
  show ?thesis
  proof (cases "graceTimers s")
    case Nil
    then show ?thesis using GraceTimerFires by (simp add: progress_def)
  next
    case (Cons m rest)
    have "progress s (checkCompletion (s\<lparr>graceTimers := rest, stdoutEnded := True, stderrEnded := True\<rparr>))"
      by (rule progress_checkCompletion_upd) (simp add: progress_def)
    then show ?thesis using GraceTimerFires Cons
      by (simp add: graceTimer_callback_def progress_def)
  qed
qed

lemma progress_run: "progress s (run s evs)"
proof (induction evs arbitrary: s)
  case Nil
  show ?case by (simp add: progress_def)
next
  case (Cons e evs)
  have "progress (step s e) (run (step s e) evs)" by (rule Cons.IH)
  moreover have "progress s (step s e)" by (rule progress_step)
  ultimately show ?case by (simp add: progress_def)
qed

lemma processExited_after_exit: "processExited (step s (Exit code))"
  using progress_checkCompletion [of "s\<lparr>processExited := True, exitCode := code,
                                        graceTimers := graceTimers s @ [100]\<rparr>"]
  by (simp add: on_exit_def progress_def)

lemma stdoutEnded_after_end: "hasStdout s \<Longrightarrow> stdoutEnded (step s StdoutEnd)"
  using progress_checkCompletion [of "s\<lparr>stdoutEnded := True\<rparr>"]
  by (simp add: progress_def)

lemma stderrEnded_after_end: "hasStderr s \<Longrightarrow> stderrEnded (step s StderrEnd)"
  using progress_checkCompletion [of "s\<lparr>stderrEnded := True\<rparr>"]
  by (simp add: progress_def)

lemma resolved_after_timeout: "consistent s \<Longrightarrow> resolved (step s OverallTimeoutFires)"
  by (cases "overallTimeout s") (auto simp: consistent_def overallTimeout_callback_eq)

lemma resolved_after_error: "resolved (step s (ChildError x))"
  by (simp add: on_error_eq)

lemma exit_seen: "Exit code \<in> set evs \<Longrightarrow> processExited (run s evs)"
proof (induction evs arbitrary: s)
  case Nil
  then show ?case by simp
next
  case (Cons e evs)
  show ?case
  proof (cases "e = Exit code")
    case True
    then have "processExited (step s e)" by (simp only: processExited_after_exit)
    then show ?thesis using progress_run [of "step s e" evs] by (simp add: progress_def)
  next
    case False
    then show ?thesis using Cons by simp
  qed
qed

lemma stdout_end_seen: "hasStdout s \<Longrightarrow> StdoutEnd \<in> set evs \<Longrightarrow> stdoutEnded (run s evs)"
proof (induction evs arbitrary: s)
  case Nil
  then show ?case by simp
next
  case (Cons e evs)
  show ?case
  proof (cases "e = StdoutEnd")
    case True
    then have "stdoutEnded (step s e)" using Cons.prems(1) by (simp only: stdoutEnded_after_end)
    then show ?thesis using progress_run [of "step s e" evs] by (simp add: progress_def)
  next
    case False
    moreover have "hasStdout (step s e)"
      using same_setup_step [of s e] Cons.prems(1) by (simp add: same_setup_def)
    ultimately show ?thesis using Cons by simp
  qed
qed

lemma stderr_end_seen: "hasStderr s \<Longrightarrow> StderrEnd \<in> set evs \<Longrightarrow> stderrEnded (run s evs)"
proof (induction evs arbitrary: s)
  case Nil
  then show ?case by simp
next
  case (Cons e evs)
  show ?case
  proof (cases "e = StderrEnd")
    case True
    then have "stderrEnded (step s e)" using Cons.prems(1) by (simp only: stderrEnded_after_end)
    then show ?thesis using progress_run [of "step s e" evs] by (simp add: progress_def)
  next
    case False
    moreover have "hasStderr (step s e)"
      using same_setup_step [of s e] Cons.prems(1) by (simp add: same_setup_def)
    ultimately show ?thesis using Cons by simp
  qed
qed

lemma timeout_seen:
  "consistent s \<Longrightarrow> OverallTimeoutFires \<in> set evs \<Longrightarrow> resolved (run s evs)"
proof (induction evs arbitrary: s)
  case Nil
  then show ?case by simp
next
  case (Cons e evs)
  show ?case
  proof (cases "e = OverallTimeoutFires")
    case True
    then have "resolved (step s e)" using Cons.prems(1) by (simp only: resolved_after_timeout)
    then show ?thesis using progress_run [of "step s e" evs] by (simp add: progress_def)
  next
    case False
    moreover have "consistent (step s e)" using Cons.prems(1) by (rule consistent_step)
    ultimately show ?thesis using Cons by simp
  qed
qed

lemma error_seen: "ChildError x \<in> set evs \<Longrightarrow> resolved (run s evs)"
proof (induction evs arbitrary: s)
  case Nil
  then show ?case by simp
next
  case (Cons e evs)
  show ?case
  proof (cases "e = ChildError x")
    case True
    then have "resolved (step s e)" by (simp only: resolved_after_error)
    then show ?thesis using progress_run [of "step s e" evs] by (simp add: progress_def)
  next
    case False
    then show ?thesis using Cons by simp
  qed
qed

text \<open>
  Claim C1. Whatever events an execution receives and in whatever order, the promise is
  settled at most once, and it has been settled exactly once precisely when the flag
  \<^verbatim>\<open>resolved\<close> is set. It has been settled exactly once as soon as the events received
  include the exit of the process and the end of every stream the child has (in any of
  their orders, with any other events in between), or the firing of the overall timer, or
  an error event of the child.
\<close>

theorem execute_settles_exactly_once:
  "length (settlements (run (execute this cmd as opts so se) evs)) \<le> 1
   \<and> (resolved (run (execute this cmd as opts so se) evs)
        \<longleftrightarrow> length (settlements (run (execute this cmd as opts so se) evs)) = 1)
   \<and> (((\<exists>code. Exit code \<in> set evs) \<and> (so \<longrightarrow> StdoutEnd \<in> set evs) \<and> (se \<longrightarrow> StderrEnd \<in> set evs))
        \<or> OverallTimeoutFires \<in> set evs \<or> (\<exists>x. ChildError x \<in> set evs)
       \<longrightarrow> length (settlements (run (execute this cmd as opts so se) evs)) = 1)"
proof -
  let ?start = "execute this cmd as opts so se"
  let ?final = "run ?start evs"
  have c0: "consistent ?start" by (rule consistent_execute)
  have c: "consistent ?final" by (simp add: consistent_run consistent_execute)
  have streams: "hasStdout ?final = so" "hasStderr ?final = se" "hasStdout ?start = so" "hasStderr ?start = se"
    using same_setup_run [of ?start evs] by (simp_all add: same_setup_def execute_def)
  have once: "resolved ?final \<longleftrightarrow> length (settlements ?final) = 1"
    using c by (auto simp: consistent_def)
  have atmost: "length (settlements ?final) \<le> 1"
    using c by (cases "resolved ?final") (simp_all add: consistent_def)
  have signals: "resolved ?final"
    if "\<exists>code. Exit code \<in> set evs" "so \<longrightarrow> StdoutEnd \<in> set evs" "se \<longrightarrow> StderrEnd \<in> set evs"
  proof -
    have "processExited ?final" using that(1) exit_seen by blast
    moreover have "stdoutEnded ?final"
    proof (cases so)
      case True
      then show ?thesis using that(2) streams(3) stdout_end_seen by blast
    next
      case False
      then show ?thesis using c streams(1) by (simp add: consistent_def)
    qed
    moreover have "stderrEnded ?final"
    proof (cases se)
      case True
      then show ?thesis using that(3) streams(4) stderr_end_seen by blast
    next
      case False
      then show ?thesis using c streams(2) by (simp add: consistent_def)
    qed
    ultimately show ?thesis using c by (simp add: consistent_def)
  qed
  have timeout: "resolved ?final" if "OverallTimeoutFires \<in> set evs"
    using c0 that by (simp add: timeout_seen)
  have err: "resolved ?final" if "\<exists>x. ChildError x \<in> set evs"
    using that error_seen by blast
  show ?thesis
    using once atmost signals timeout err by blast
qed

theorem execute_settles_exactly_once_witness:
  "length (settlements (run (fixture None None False)
      [Exit (Some 2), StdoutEnd, StderrEnd, GraceTimerFires, OverallTimeoutFires])) = 1
   \<and> length (settlements (run (fixture None None False)
      [Exit (Some 2), StderrEnd, GraceTimerFires, StdoutEnd, ChildError (Error ''EPIPE'')])) = 1
   \<and> length (settlements (run (fixture None None False)
      [StdoutEnd, Exit (Some 2),  StderrEnd, OverallTimeoutFires, GraceTimerFires])) = 1
   \<and> length (settlements (run (fixture None None False)
      [StdoutEnd, StderrEnd, Exit (Some 2), GraceTimerFires])) = 1
   \<and> length (settlements (run (fixture None None False)
      [StderrEnd, Exit (Some 2), StdoutEnd])) = 1
   \<and> length (settlements (run (fixture None None False)
      [OverallTimeoutFires, StderrEnd, StdoutEnd, Exit None, GraceTimerFires])) = 1"
  using execute_settles_exactly_once [of "new_StreamingExecutor None\<lparr>currentSpinner := False\<rparr>" "''git''" "[''pull'', ''origin'']"
      "\<lparr>opt_cwd = None, opt_maxLines = Some 3, opt_showOutput = None\<rparr>" True True
      "[Exit (Some 2), StdoutEnd, StderrEnd, GraceTimerFires, OverallTimeoutFires]"]
    execute_settles_exactly_once [of "new_StreamingExecutor None\<lparr>currentSpinner := False\<rparr>" "''git''" "[''pull'', ''origin'']"
      "\<lparr>opt_cwd = None, opt_maxLines = Some 3, opt_showOutput = None\<rparr>" True True
      "[Exit (Some 2), StderrEnd, GraceTimerFires, StdoutEnd, ChildError (Error ''EPIPE'')]"]
    execute_settles_exactly_once [of "new_StreamingExecutor None\<lparr>currentSpinner := False\<rparr>" "''git''" "[''pull'', ''origin'']"
      "\<lparr>opt_cwd = None, opt_maxLines = Some 3, opt_showOutput = None\<rparr>" True True
      "[StdoutEnd, Exit (Some 2),  StderrEnd, OverallTimeoutFires, GraceTimerFires]"]
    execute_settles_exactly_once [of "new_StreamingExecutor None\<lparr>currentSpinner := False\<rparr>" "''git''" "[''pull'', ''origin'']"
      "\<lparr>opt_cwd = None, opt_maxLines = Some 3, opt_showOutput = None\<rparr>" True True
      "[StdoutEnd, StderrEnd, Exit (Some 2), GraceTimerFires]"]
    execute_settles_exactly_once [of "new_StreamingExecutor None\<lparr>currentSpinner := False\<rparr>" "''git''" "[''pull'', ''origin'']"
      "\<lparr>opt_cwd = None, opt_maxLines = Some 3, opt_showOutput = None\<rparr>" True True
      "[StderrEnd, Exit (Some 2), StdoutEnd]"]
    execute_settles_exactly_once [of "new_StreamingExecutor None\<lparr>currentSpinner := False\<rparr>" "''git''" "[''pull'', ''origin'']"
      "\<lparr>opt_cwd = None, opt_maxLines = Some 3, opt_showOutput = None\<rparr>" True True
      "[OverallTimeoutFires, StderrEnd, StdoutEnd, Exit None, GraceTimerFires]"]
  unfolding fixture_def by simp

subsection \<open>Completion waits for the exit and the stream flags\<close>

lemma grace_elapsed_snoc: "grace_elapsed evs \<Longrightarrow> grace_elapsed (evs @ [e])"
  by (induction evs rule: grace_elapsed.induct) simp_all

lemma grace_elapsed_after_exit:
  "Exit code \<in> set evs \<Longrightarrow> grace_elapsed (evs @ [GraceTimerFires])"
  by (induction evs rule: grace_elapsed.induct) simp_all

lemma same_flags_checkCompletion: "same_flags s (checkCompletion s)"
  by (cases "processExited s \<and> stdoutEnded s \<and> stderrEnded s \<and> \<not> resolved s")
     (simp_all add: checkCompletion_ready checkCompletion_idle same_flags_def)

lemma checkCompletion_settles:
  assumes "\<not> resolved s" and "resolved (checkCompletion s)"
  shows "processExited s \<and> stdoutEnded s \<and> stderrEnded s"
proof (rule ccontr)
  assume "\<not> (processExited s \<and> stdoutEnded s \<and> stderrEnded s)"
  then have "\<not> (processExited s \<and> stdoutEnded s \<and> stderrEnded s \<and> \<not> resolved s)" by blast
  then have "checkCompletion s = s" by (rule checkCompletion_idle)
  then show False using assms by simp
qed

lemma checkCompletion_flags_when_settling:
  assumes "\<not> resolved s" and "resolved (checkCompletion s)"
  shows "processExited (checkCompletion s) \<and> stdoutEnded (checkCompletion s)
         \<and> stderrEnded (checkCompletion s)"
  using checkCompletion_settles [OF assms] same_flags_checkCompletion [of s]
  by (simp add: same_flags_def)

lemma step_settles_flags:
  assumes n: "\<not> resolved s" and r: "resolved (step s e)"
    and t: "e \<noteq> OverallTimeoutFires" and x: "\<forall>err. e \<noteq> ChildError err"
  shows "processExited (step s e) \<and> stdoutEnded (step s e) \<and> stderrEnded (step s e)"
proof (cases e)
  case AwaitResumes
  then show ?thesis using n r by (simp add: await_resumes_fields del: step.simps)
next
  case (StdoutData d now)
  then show ?thesis
    using n r by (simp add: display_only_fields [OF display_only_processOutput] split: if_splits)
next
  case (StderrData d now)
  then show ?thesis
    using n r by (simp add: display_only_fields [OF display_only_processOutput] split: if_splits)
next
  case StdoutEnd
  show ?thesis
  proof (cases "hasStdout s")
    case True
    then show ?thesis
      using StdoutEnd r n checkCompletion_flags_when_settling [of "s\<lparr>stdoutEnded := True\<rparr>"]
      by simp
  next
    case False
    then show ?thesis using StdoutEnd r n by simp
  qed
next
  case StderrEnd
  show ?thesis
  proof (cases "hasStderr s")
    case True
    then show ?thesis
      using StderrEnd r n checkCompletion_flags_when_settling [of "s\<lparr>stderrEnded := True\<rparr>"]
      by simp
  next
    case False
    then show ?thesis using StderrEnd r n by simp
  qed
next
  case (Exit code)
  then show ?thesis
    using r n checkCompletion_flags_when_settling
      [of "s\<lparr>processExited := True, exitCode := code, graceTimers := graceTimers s @ [100]\<rparr>"]
    by (simp add: on_exit_def)
next
  case (ChildError err)
  then show ?thesis using x by simp
next
  case OverallTimeoutFires
  then show ?thesis using t by simp
next
  case GraceTimerFires
  show ?thesis
  proof (cases "graceTimers s")
    case Nil
    then show ?thesis using GraceTimerFires r n by simp
  next
    case (Cons m rest)
    then show ?thesis
      using GraceTimerFires r n checkCompletion_flags_when_settling
        [of "s\<lparr>graceTimers := rest, stdoutEnded := True, stderrEnded := True\<rparr>"]
      by (simp add: graceTimer_callback_def)
  qed
qed

lemma flags_from_events_checkCompletion:
  "flags_from_events evs s \<Longrightarrow> flags_from_events evs (checkCompletion s)"
  using same_flags_checkCompletion [of s] same_setup_checkCompletion [of s]
  by (simp add: flags_from_events_def same_flags_def same_setup_def)

lemma flags_from_events_step:
  assumes f: "flags_from_events evs s"
  shows "flags_from_events (evs @ [e]) (step s e)"
proof -
  have weaken: "flags_from_events (evs @ [e]) s"
    using f grace_elapsed_snoc [of evs e] by (auto simp: flags_from_events_def)
  show ?thesis
  proof (cases e)
    case AwaitResumes
    then show ?thesis
      using weaken by (simp add: flags_from_events_def await_resumes_fields del: step.simps)
  next
    case (StdoutData d now)
    then show ?thesis
      using weaken by (simp add: flags_from_events_def
          display_only_fields [OF display_only_processOutput])
  next
    case (StderrData d now)
    then show ?thesis
      using weaken by (simp add: flags_from_events_def
          display_only_fields [OF display_only_processOutput])
  next
    case StdoutEnd
    have "flags_from_events (evs @ [e]) (checkCompletion (s\<lparr>stdoutEnded := True\<rparr>))"
      by (rule flags_from_events_checkCompletion)
         (use weaken StdoutEnd in \<open>simp add: flags_from_events_def\<close>)
    then show ?thesis using StdoutEnd weaken by simp
  next
    case StderrEnd
    have "flags_from_events (evs @ [e]) (checkCompletion (s\<lparr>stderrEnded := True\<rparr>))"
      by (rule flags_from_events_checkCompletion)
         (use weaken StderrEnd in \<open>simp add: flags_from_events_def\<close>)
    then show ?thesis using StderrEnd weaken by simp
  next
    case (Exit code)
    have "flags_from_events (evs @ [e])
            (checkCompletion (s\<lparr>processExited := True, exitCode := code,
                                 graceTimers := graceTimers s @ [100]\<rparr>))"
      by (rule flags_from_events_checkCompletion)
         (use weaken Exit in \<open>auto simp: flags_from_events_def\<close>)
    then show ?thesis using Exit by (simp add: on_exit_def)
  next
    case (ChildError err)
    then show ?thesis using weaken by (simp add: flags_from_events_def on_error_eq)
  next
    case OverallTimeoutFires
    then show ?thesis
      using weaken
      by (cases "overallTimeout s") (simp_all add: flags_from_events_def overallTimeout_callback_eq)
  next
    case GraceTimerFires
    show ?thesis
    proof (cases "graceTimers s")
      case Nil
      then show ?thesis using GraceTimerFires weaken by simp
    next
      case (Cons m rest)
      then obtain code where "Exit code \<in> set evs"
        using f by (auto simp: flags_from_events_def)
      then have g: "grace_elapsed (evs @ [e])"
        using GraceTimerFires grace_elapsed_after_exit by simp
      have 1: "flags_from_events (evs @ [e]) (s\<lparr>graceTimers := rest\<rparr>)"
        using weaken \<open>Exit code \<in> set evs\<close> by (auto simp: flags_from_events_def)
      have "flags_from_events (evs @ [e])
              (checkCompletion (s\<lparr>graceTimers := rest, stdoutEnded := True, stderrEnded := True\<rparr>))"
        by (rule flags_from_events_checkCompletion)
           (use 1 g in \<open>simp add: flags_from_events_def\<close>)
      then show ?thesis using GraceTimerFires Cons 1
        by (simp add: graceTimer_callback_def)
    qed
  qed
qed

lemma flags_from_events_run:
  "flags_from_events [] s \<Longrightarrow> flags_from_events evs (run s evs)"
proof (induction evs rule: rev_induct)
  case Nil
  then show ?case by simp
next
  case (snoc e evs)
  then have "flags_from_events evs (run s evs)" by simp
  then have "flags_from_events (evs @ [e]) (step (run s evs) e)"
    by (rule flags_from_events_step)
  then show ?case by (simp add: run_append)
qed

lemma flags_from_events_execute:
  "flags_from_events [] (execute this cmd as opts so se)"
  by (simp add: flags_from_events_def execute_def)

text \<open>
  Claim C2, as the code has it. When an execution is settled by an event other than the
  firing of the overall timer or an error of the child, the three flags of the completion
  check are set, the exit event is among the events received, and for each stream the
  child has, either its end event is among them or the grace timer has fired after an
  exit. A stream the child does not have needs nothing.
\<close>

theorem completion_waits_for_exit_and_streams:
  assumes "\<not> resolved (run (execute this cmd as opts so se) evs)"
    and "resolved (step (run (execute this cmd as opts so se) evs) e)"
    and "e \<noteq> OverallTimeoutFires" and "\<forall>err. e \<noteq> ChildError err"
  shows "processExited (step (run (execute this cmd as opts so se) evs) e)
       \<and> stdoutEnded (step (run (execute this cmd as opts so se) evs) e)
       \<and> stderrEnded (step (run (execute this cmd as opts so se) evs) e)
       \<and> (\<exists>code. Exit code \<in> set (evs @ [e]))
       \<and> (so \<longrightarrow> StdoutEnd \<in> set (evs @ [e]) \<or> grace_elapsed (evs @ [e]))
       \<and> (se \<longrightarrow> StderrEnd \<in> set (evs @ [e]) \<or> grace_elapsed (evs @ [e]))"
proof -
  let ?before = "run (execute this cmd as opts so se) evs"
  let ?after = "step ?before e"
  have flags: "processExited ?after \<and> stdoutEnded ?after \<and> stderrEnded ?after"
    using assms by (rule step_settles_flags)
  have "flags_from_events (evs @ [e]) (run (execute this cmd as opts so se) (evs @ [e]))"
    by (rule flags_from_events_run) (rule flags_from_events_execute)
  then have hist: "flags_from_events (evs @ [e]) ?after" by (simp add: run_append)
  have "hasStdout ?after = so" "hasStderr ?after = se"
    using same_setup_run [of "execute this cmd as opts so se" "evs @ [e]"]
    by (simp_all add: same_setup_def execute_def run_append)
  then show ?thesis using flags hist by (simp add: flags_from_events_def)
qed

theorem completion_waits_for_exit_and_streams_witness:
  "\<not> resolved (run (fixture None None False) [StdoutEnd, Exit (Some 0)])
   \<and> resolved (step (run (fixture None None False) [StdoutEnd, Exit (Some 0)]) StderrEnd)
   \<and> processExited (step (run (fixture None None False) [StdoutEnd, Exit (Some 0)]) StderrEnd)
   \<and> stdoutEnded (step (run (fixture None None False) [StdoutEnd, Exit (Some 0)]) StderrEnd)
   \<and> stderrEnded (step (run (fixture None None False) [StdoutEnd, Exit (Some 0)]) StderrEnd)"
proof -
  have a: "\<not> resolved (run (execute (new_StreamingExecutor None\<lparr>currentSpinner := False\<rparr>) ''git'' [''pull'', ''origin'']
      \<lparr>opt_cwd = None, opt_maxLines = Some 3, opt_showOutput = None\<rparr> True True) [StdoutEnd, Exit (Some 0)])"
    by (simp add: execute_def new_StreamingExecutor_def on_exit_def checkCompletion_def)
  have b: "resolved (step (run (execute (new_StreamingExecutor None\<lparr>currentSpinner := False\<rparr>) ''git'' [''pull'', ''origin'']
      \<lparr>opt_cwd = None, opt_maxLines = Some 3, opt_showOutput = None\<rparr> True True) [StdoutEnd, Exit (Some 0)]) StderrEnd)"
    by (simp add: execute_def new_StreamingExecutor_def on_exit_def checkCompletion_def emit_def)
  have c: "StderrEnd \<noteq> OverallTimeoutFires" by simp
  have d: "\<forall>err. StderrEnd \<noteq> ChildError err" by simp
  show ?thesis
    using a b completion_waits_for_exit_and_streams [OF a b c d]
    by (simp add: fixture_def)
qed

text \<open>
  Claim C2 as stated fails: after the exit event, the firing of the grace timer settles
  the promise although neither stream of the child has emitted its end event.
\<close>

theorem completion_without_stream_end:
  "settlements (run (fixture None None False) [Exit (Some 0), GraceTimerFires]) = [Resolve]
   \<and> hasStdout (fixture None None False) \<and> hasStderr (fixture None None False)
   \<and> StdoutEnd \<notin> set [Exit (Some 0), GraceTimerFires]
   \<and> StderrEnd \<notin> set [Exit (Some 0), GraceTimerFires]
   \<and> OverallTimeoutFires \<notin> set [Exit (Some 0), GraceTimerFires]"
  by (simp add: fixture_def execute_def new_StreamingExecutor_def on_exit_def
      graceTimer_callback_def checkCompletion_def emit_def settlements_def)

subsection \<open>The display at completion\<close>

lemma checkCompletion_success_keeps_display:
  assumes "showOutput s" and "settlements s = []"
    and "settlements (checkCompletion s) = [Resolve]"
  shows "log (checkCompletion s) = log s @ [ClearTimeout, Resolve]
         \<and> outputBuffer (checkCompletion s) = outputBuffer s"
proof (cases "processExited s \<and> stdoutEnded s \<and> stderrEnded s \<and> \<not> resolved s")
  case True
  then show ?thesis
    using assms by (simp add: checkCompletion_ready settlements_def)
next
  case False
  then have "checkCompletion s = s" by (rule checkCompletion_idle)
  then show ?thesis using assms by simp
qed

lemma step_success_keeps_display:
  assumes sh: "showOutput s" and em: "settlements s = []" and nr: "\<not> resolved s"
    and ok: "settlements (step s e) = [Resolve]"
  shows "log (step s e) = log s @ [ClearTimeout, Resolve]
         \<and> outputBuffer (step s e) = outputBuffer s"
proof (cases e)
  case AwaitResumes
  then show ?thesis using ok em by (simp add: settlements_await_resumes del: step.simps)
next
  case (StdoutData d now)
  then show ?thesis using ok em by (simp add: settlements_processOutput split: if_splits)
next
  case (StderrData d now)
  then show ?thesis using ok em by (simp add: settlements_processOutput split: if_splits)
next
  case StdoutEnd
  show ?thesis
  proof (cases "hasStdout s")
    case True
    then show ?thesis
      using StdoutEnd ok sh em
        checkCompletion_success_keeps_display [of "s\<lparr>stdoutEnded := True\<rparr>"]
      by (simp add: settlements_def)
  next
    case False
    then show ?thesis using StdoutEnd ok em by simp
  qed
next
  case StderrEnd
  show ?thesis
  proof (cases "hasStderr s")
    case True
    then show ?thesis
      using StderrEnd ok sh em
        checkCompletion_success_keeps_display [of "s\<lparr>stderrEnded := True\<rparr>"]
      by (simp add: settlements_def)
  next
    case False
    then show ?thesis using StderrEnd ok em by simp
  qed
next
  case (Exit code)
  then show ?thesis
    using ok sh em checkCompletion_success_keeps_display
      [of "s\<lparr>processExited := True, exitCode := code, graceTimers := graceTimers s @ [100]\<rparr>"]
    by (simp add: on_exit_def settlements_def)
next
  case (ChildError err)
  then show ?thesis using ok em nr by (simp add: on_error_eq settlements_def)
next
  case OverallTimeoutFires
  then show ?thesis using ok em nr
    by (cases "overallTimeout s") (simp_all add: overallTimeout_callback_eq settlements_def)
next
  case GraceTimerFires
  show ?thesis
  proof (cases "graceTimers s")
    case Nil
    then show ?thesis using GraceTimerFires ok em by simp
  next
    case (Cons m rest)
    then show ?thesis
      using GraceTimerFires ok sh em nr checkCompletion_success_keeps_display
        [of "s\<lparr>graceTimers := rest, stdoutEnded := True, stderrEnded := True\<rparr>"]
      by (simp add: graceTimer_callback_def settlements_def)
  qed
qed

text \<open>
  Claim C5, as the code has it. In an execution with \<^verbatim>\<open>showOutput\<close> true (the default),
  with or without a spinner, the event that resolves the promise only clears the overall
  timer and resolves: it writes nothing to the terminal and leaves the output buffer as it
  was, so the display is not cleared.
\<close>

theorem success_leaves_display:
  assumes "opt_showOutput opts \<noteq> Some False"
    and "\<not> resolved (run (execute this cmd as opts so se) evs)"
    and "settlements (step (run (execute this cmd as opts so se) evs) e) = [Resolve]"
  shows "log (step (run (execute this cmd as opts so se) evs) e)
           = log (run (execute this cmd as opts so se) evs) @ [ClearTimeout, Resolve]
       \<and> outputBuffer (step (run (execute this cmd as opts so se) evs) e)
           = outputBuffer (run (execute this cmd as opts so se) evs)"
proof -
  let ?before = "run (execute this cmd as opts so se) evs"
  have "showOutput (execute this cmd as opts so se)"
    using assms(1) by (cases "opt_showOutput opts") (simp_all add: execute_def)
  then have sh: "showOutput ?before"
    using same_setup_run [of "execute this cmd as opts so se" evs] by (simp add: same_setup_def)
  have "consistent ?before" by (simp add: consistent_run consistent_execute)
  then have em: "settlements ?before = []" using assms(2) by (simp add: consistent_def)
  show ?thesis using sh em assms(2) assms(3) by (rule step_success_keeps_display)
qed

theorem success_leaves_display_witness:
  "settlements (step (run (fixture None None False)
       [StdoutData (''hello'' @ [CHR 0x0A]) 1000, Exit (Some 0), StdoutEnd]) StderrEnd) = [Resolve]
   \<and> outputBuffer (step (run (fixture None None False)
       [StdoutData (''hello'' @ [CHR 0x0A]) 1000, Exit (Some 0), StdoutEnd]) StderrEnd) = [''hello'']"
proof -
  let ?opts = "\<lparr>opt_cwd = None, opt_maxLines = Some 3, opt_showOutput = None\<rparr>"
  let ?exec = "new_StreamingExecutor None\<lparr>currentSpinner := False\<rparr>"
  let ?evs = "[StdoutData (''hello'' @ [CHR 0x0A]) 1000, Exit (Some 0), StdoutEnd]"
  have a: "opt_showOutput ?opts \<noteq> Some False" by simp
  have b: "\<not> resolved (run (execute ?exec ''git'' [''pull'', ''origin''] ?opts True True) ?evs)"
    by (simp add: execute_def new_StreamingExecutor_def on_exit_def checkCompletion_def
        display_only_fields [OF display_only_processOutput])
  have buf: "outputBuffer (run (execute ?exec ''git'' [''pull'', ''origin''] ?opts True True) ?evs) = [''hello'']"
    by (simp add: execute_def new_StreamingExecutor_def on_exit_def checkCompletion_def
        processOutput_def updateDisplay_def emit_def addToBuffer_def trim_def is_space_def Let_def)
  have c: "settlements (step (run (execute ?exec ''git'' [''pull'', ''origin''] ?opts True True) ?evs) StderrEnd) = [Resolve]"
    by (simp add: execute_def new_StreamingExecutor_def on_exit_def checkCompletion_def
        processOutput_def updateDisplay_def emit_def addToBuffer_def trim_def is_space_def Let_def
        settlements_def)
  show ?thesis
    using success_leaves_display [OF a b c] c buf by (simp add: fixture_def)
qed

text \<open>
  Claim C5 as stated fails: with \<^verbatim>\<open>showOutput\<close> true and no spinner, one line of output is
  drawn and the process then exits with code 0; the promise is resolved with the line still
  in the buffer and nothing written after the drawing.
\<close>

theorem display_not_cleared_on_success:
  "log (run (fixture None None False)
        [StdoutData (''hello'' @ [CHR 0x0A]) 1000, Exit (Some 0), StdoutEnd, StderrEnd])
     = [StdoutWrite (CHR 0x1B # ''[2A''), StdoutWrite (CHR 0x1B # ''[0J''),
        ConsoleLog Blue (echo_prefix @ ''git pull origin''), ConsoleLog Gray ''  hello'',
        ClearTimeout, Resolve]
   \<and> outputBuffer (run (fixture None None False)
        [StdoutData (''hello'' @ [CHR 0x0A]) 1000, Exit (Some 0), StdoutEnd, StderrEnd]) = [''hello'']
   \<and> showOutput (fixture None None False) \<and> \<not> currentSpinner (fixture None None False)"
  by (simp add: fixture_def execute_def new_StreamingExecutor_def on_exit_def checkCompletion_def
        processOutput_def updateDisplay_def emit_def addToBuffer_def trim_def is_space_def Let_def
        command_line_def cursor_up_def erase_below_def string_of_nat.simps digit_char_def)

subsection \<open>The display while a spinner is active\<close>

lemma processOutput_spinner:
  assumes "currentSpinner s"
  shows "log (processOutput s d e now) = log s
         \<and> lastDisplayUpdate (processOutput s d e now) = lastDisplayUpdate s"
proof -
  let ?s1 = "foldl (\<lambda>t line. (addToBuffer t (trim line))\<lparr>hasOutput := True\<rparr>) s
               (filter (\<lambda>line. trim line \<noteq> []) (split CHR 0x0A d))"
  have "currentSpinner ?s1"
    using assms display_only_fields(12) [OF display_only_addLines] by simp
  then have "processOutput s d e now = ?s1"
    by (simp add: processOutput_def Let_def)
  then show ?thesis by (simp add: log_addLines lastDisplayUpdate_addLines)
qed

lemma outputBuffer_addLines:
  "outputBuffer s = outputBuffer t \<Longrightarrow> maxLines s = maxLines t \<Longrightarrow>
   outputBuffer (foldl (\<lambda>t line. (addToBuffer t (trim line))\<lparr>hasOutput := True\<rparr>) s ls)
     = outputBuffer (foldl addToBuffer t (map trim ls))"
proof (induction ls arbitrary: s t)
  case Nil
  then show ?case by simp
next
  case (Cons l ls)
  have "outputBuffer ((addToBuffer s (trim l))\<lparr>hasOutput := True\<rparr>)
          = outputBuffer (addToBuffer t (trim l))"
    using Cons.prems by (simp add: outputBuffer_addToBuffer)
  moreover have "maxLines ((addToBuffer s (trim l))\<lparr>hasOutput := True\<rparr>)
          = maxLines (addToBuffer t (trim l))"
    using Cons.prems by (simp add: maxLines_addToBuffer)
  ultimately show ?case using Cons.IH by simp
qed

lemma outputBuffer_processOutput:
  "outputBuffer (processOutput s d e now) = outputBuffer (foldl addToBuffer s (buffered_lines d))"
proof -
  let ?s1 = "foldl (\<lambda>t line. (addToBuffer t (trim line))\<lparr>hasOutput := True\<rparr>) s
               (filter (\<lambda>line. trim line \<noteq> []) (split CHR 0x0A d))"
  have "outputBuffer (processOutput s d e now) = outputBuffer ?s1"
    by (simp add: processOutput_def Let_def updateDisplay_def emit_def)
  also have "\<dots> = outputBuffer (foldl addToBuffer s (buffered_lines d))"
    unfolding buffered_lines_def by (rule outputBuffer_addLines) simp_all
  finally show ?thesis .
qed

lemma draw_clear_writes [simp]: "filter is_draw (clear_writes buf) = []"
  by (simp add: clear_writes_def)

lemma draw_completion [simp]: "\<not> is_draw (completion_settle code buf)"
  by (simp add: completion_settle_def split: option.splits)

lemma currentSpinner_checkCompletion: "currentSpinner (checkCompletion s) = currentSpinner s"
  by (cases "processExited s \<and> stdoutEnded s \<and> stderrEnded s \<and> \<not> resolved s")
     (simp_all add: checkCompletion_ready checkCompletion_idle)

lemma undrawn_checkCompletion: "undrawn s \<Longrightarrow> undrawn (checkCompletion s)"
  by (cases "processExited s \<and> stdoutEnded s \<and> stderrEnded s \<and> \<not> resolved s")
     (simp_all add: checkCompletion_ready checkCompletion_idle undrawn_def)

text \<open>Only the resumption of \<^verbatim>\<open>executeWithSpinner\<close> touches the spinner field.\<close>

lemma currentSpinner_step:
  assumes "e \<noteq> AwaitResumes" shows "currentSpinner (step s e) = currentSpinner s"
proof (cases e)
  case AwaitResumes
  then show ?thesis using assms by simp
next
  case (StdoutData d now)
  then show ?thesis by (simp add: display_only_fields [OF display_only_processOutput])
next
  case (StderrData d now)
  then show ?thesis by (simp add: display_only_fields [OF display_only_processOutput])
next
  case StdoutEnd
  then show ?thesis by (simp add: currentSpinner_checkCompletion)
next
  case StderrEnd
  then show ?thesis by (simp add: currentSpinner_checkCompletion)
next
  case (Exit code)
  then show ?thesis by (simp add: on_exit_def currentSpinner_checkCompletion)
next
  case (ChildError err)
  then show ?thesis by (simp add: on_error_eq)
next
  case OverallTimeoutFires
  then show ?thesis by (cases "overallTimeout s") (simp_all add: overallTimeout_callback_eq)
next
  case GraceTimerFires
  then show ?thesis
    by (cases "graceTimers s") (simp_all add: graceTimer_callback_def currentSpinner_checkCompletion)
qed

lemma undrawn_step:
  assumes u: "undrawn s" and ne: "e \<noteq> AwaitResumes" shows "undrawn (step s e)"
proof (cases e)
  case AwaitResumes
  then show ?thesis using ne by simp
next
  case (StdoutData d now)
  then show ?thesis
    using u processOutput_spinner [of s d False now]
    by (simp add: undrawn_def display_only_fields [OF display_only_processOutput])
next
  case (StderrData d now)
  then show ?thesis
    using u processOutput_spinner [of s d True now]
    by (simp add: undrawn_def display_only_fields [OF display_only_processOutput])
next
  case StdoutEnd
  have "undrawn (checkCompletion (s\<lparr>stdoutEnded := True\<rparr>))"
    by (rule undrawn_checkCompletion) (use u in \<open>simp add: undrawn_def\<close>)
  then show ?thesis using StdoutEnd u by simp
next
  case StderrEnd
  have "undrawn (checkCompletion (s\<lparr>stderrEnded := True\<rparr>))"
    by (rule undrawn_checkCompletion) (use u in \<open>simp add: undrawn_def\<close>)
  then show ?thesis using StderrEnd u by simp
next
  case (Exit code)
  have "undrawn (checkCompletion (s\<lparr>processExited := True, exitCode := code,
                                    graceTimers := graceTimers s @ [100]\<rparr>))"
    by (rule undrawn_checkCompletion) (use u in \<open>simp add: undrawn_def\<close>)
  then show ?thesis using Exit by (simp add: on_exit_def)
next
  case (ChildError err)
  then show ?thesis using u by (simp add: undrawn_def on_error_eq)
next
  case OverallTimeoutFires
  then show ?thesis using u
    by (cases "overallTimeout s") (simp_all add: undrawn_def overallTimeout_callback_eq)
next
  case GraceTimerFires
  show ?thesis
  proof (cases "graceTimers s")
    case Nil
    then show ?thesis using GraceTimerFires u by simp
  next
    case (Cons m rest)
    have "undrawn (checkCompletion (s\<lparr>graceTimers := rest, stdoutEnded := True, stderrEnded := True\<rparr>))"
      by (rule undrawn_checkCompletion) (use u in \<open>simp add: undrawn_def\<close>)
    moreover have "undrawn (s\<lparr>graceTimers := rest\<rparr>)" using u by (simp add: undrawn_def)
    ultimately show ?thesis using GraceTimerFires Cons
      by (simp add: graceTimer_callback_def)
  qed
qed

text \<open>As long as the spinner is in the object, nothing has been drawn.\<close>

lemma undrawn_while_spinner:
  "currentSpinner s \<longrightarrow> undrawn s \<Longrightarrow>
   currentSpinner (run s evs) \<longrightarrow> undrawn (run s evs)"
proof (induction evs arbitrary: s)
  case Nil
  then show ?case by simp
next
  case (Cons e evs)
  have "currentSpinner (step s e) \<longrightarrow> undrawn (step s e)"
  proof
    assume sp: "currentSpinner (step s e)"
    show "undrawn (step s e)"
    proof (cases "e = AwaitResumes")
      case True
      then have "step s e = s" using sp await_resumes_spinner by blast
      then show ?thesis using sp Cons.prems by simp
    next
      case False
      then have "currentSpinner s" using sp currentSpinner_step by blast
      then have "undrawn s" using Cons.prems by blast
      then show ?thesis using False by (rule undrawn_step)
    qed
  qed
  then show ?case using Cons.IH by simp
qed

text \<open>The spinner stays in the object until the promise has been settled.\<close>

lemma spinner_until_settled:
  "consistent s \<Longrightarrow> \<not> resolved s \<longrightarrow> currentSpinner s \<Longrightarrow>
   \<not> resolved (run s evs) \<longrightarrow> currentSpinner (run s evs)"
proof (induction evs arbitrary: s)
  case Nil
  then show ?case by simp
next
  case (Cons e evs)
  have "\<not> resolved (step s e) \<longrightarrow> currentSpinner (step s e)"
  proof
    assume nr: "\<not> resolved (step s e)"
    then have n: "\<not> resolved s" using progress_step [of s e] by (auto simp: progress_def)
    then have sp: "currentSpinner s" using Cons.prems(2) by blast
    show "currentSpinner (step s e)"
    proof (cases "e = AwaitResumes")
      case True
      have "settlements s = []" using Cons.prems(1) n by (simp add: consistent_def)
      then have "step s AwaitResumes = s" by (rule await_resumes_unsettled)
      then show ?thesis using True sp by simp
    next
      case False
      then show ?thesis using sp by (simp add: currentSpinner_step)
    qed
  qed
  moreover have "consistent (step s e)" using Cons.prems(1) by (rule consistent_step)
  ultimately show ?case using Cons.IH by simp
qed

lemma consistent_executeWithSpinner:
  "consistent (executeWithSpinner this cmd as text opts so se)"
  by (simp add: consistent_def executeWithSpinner_def execute_def settlements_def)

text \<open>
  Claim C6, as the code has it. In an execution started by \<^verbatim>\<open>executeWithSpinner\<close> the
  spinner is in the object until the promise has been settled. While it is there, display
  updates are skipped entirely: nothing has been drawn, the spinner has not been stopped and
  the time stamp of the redraw throttle is untouched; a data event on either stream writes
  nothing, whatever the clock says, and still pushes every non-blank line of its chunk,
  trimmed, into the ring buffer.
\<close>

theorem spinner_skips_display_updates:
  "(\<not> resolved (run (executeWithSpinner this cmd as text opts so se) evs)
      \<longrightarrow> currentSpinner (run (executeWithSpinner this cmd as text opts so se) evs))
   \<and> (currentSpinner (run (executeWithSpinner this cmd as text opts so se) evs) \<longrightarrow>
        filter is_draw (log (run (executeWithSpinner this cmd as text opts so se) evs)) = []
      \<and> lastDisplayUpdate (run (executeWithSpinner this cmd as text opts so se) evs) = 0
      \<and> log (step (run (executeWithSpinner this cmd as text opts so se) evs) (StdoutData d now))
           = log (run (executeWithSpinner this cmd as text opts so se) evs)
      \<and> log (step (run (executeWithSpinner this cmd as text opts so se) evs) (StderrData d now))
           = log (run (executeWithSpinner this cmd as text opts so se) evs)
      \<and> (so \<longrightarrow>
           outputBuffer (step (run (executeWithSpinner this cmd as text opts so se) evs)
                           (StdoutData d now))
             = outputBuffer (foldl addToBuffer
                               (run (executeWithSpinner this cmd as text opts so se) evs)
                               (buffered_lines d)))
      \<and> (se \<longrightarrow>
           outputBuffer (step (run (executeWithSpinner this cmd as text opts so se) evs)
                           (StderrData d now))
             = outputBuffer (foldl addToBuffer
                               (run (executeWithSpinner this cmd as text opts so se) evs)
                               (buffered_lines d))))"
proof -
  let ?start = "executeWithSpinner this cmd as text opts so se"
  let ?before = "run ?start evs"
  have c: "consistent ?start" by (rule consistent_executeWithSpinner)
  have "undrawn ?start"
    by (simp add: undrawn_def executeWithSpinner_def execute_def)
  then have u: "currentSpinner ?before \<longrightarrow> undrawn ?before"
    by (intro undrawn_while_spinner) simp
  have "\<not> resolved ?start \<longrightarrow> currentSpinner ?start"
    by (simp add: executeWithSpinner_def execute_def)
  then have active: "\<not> resolved ?before \<longrightarrow> currentSpinner ?before"
    using c by (intro spinner_until_settled)
  have streams: "hasStdout ?before = so" "hasStderr ?before = se"
    using same_setup_run [of ?start evs]
    by (simp_all add: same_setup_def executeWithSpinner_def execute_def)
  have quiet: "log (step ?before (StdoutData d now)) = log ?before
             \<and> log (step ?before (StderrData d now)) = log ?before"
    if "currentSpinner ?before"
    using processOutput_spinner [OF that] by simp
  have out: "so \<longrightarrow> outputBuffer (step ?before (StdoutData d now))
                      = outputBuffer (foldl addToBuffer ?before (buffered_lines d))"
  proof
    assume so
    then have "hasStdout ?before" using streams(1) by blast
    then show "outputBuffer (step ?before (StdoutData d now))
                 = outputBuffer (foldl addToBuffer ?before (buffered_lines d))"
      by (simp add: outputBuffer_processOutput)
  qed
  have err: "se \<longrightarrow> outputBuffer (step ?before (StderrData d now))
                      = outputBuffer (foldl addToBuffer ?before (buffered_lines d))"
  proof
    assume se
    then have "hasStderr ?before" using streams(2) by blast
    then show "outputBuffer (step ?before (StderrData d now))
                 = outputBuffer (foldl addToBuffer ?before (buffered_lines d))"
      by (simp add: outputBuffer_processOutput)
  qed
  show ?thesis
    using u active quiet out err unfolding undrawn_def by blast
qed

theorem spinner_skips_display_updates_witness:
  "currentSpinner (run (executeWithSpinner (new_StreamingExecutor None) ''git'' [''pull'', ''origin'']
              ''Pulling'' \<lparr>opt_cwd = None, opt_maxLines = None, opt_showOutput = None\<rparr> True True)
            [StdoutData (''one'' @ [CHR 0x0A]) 1000])
   \<and> log (step (run (executeWithSpinner (new_StreamingExecutor None) ''git'' [''pull'', ''origin'']
              ''Pulling'' \<lparr>opt_cwd = None, opt_maxLines = None, opt_showOutput = None\<rparr> True True)
            [StdoutData (''one'' @ [CHR 0x0A]) 1000]) (StdoutData (''two'' @ [CHR 0x0A]) 5000))
       = [SpinnerStart ''Pulling'']
   \<and> outputBuffer (step (run (executeWithSpinner (new_StreamingExecutor None) ''git''
              [''pull'', ''origin''] ''Pulling''
              \<lparr>opt_cwd = None, opt_maxLines = None, opt_showOutput = None\<rparr> True True)
            [StdoutData (''one'' @ [CHR 0x0A]) 1000]) (StdoutData (''two'' @ [CHR 0x0A]) 5000))
       = [''one'', ''two'']"
proof -
  let ?start = "executeWithSpinner (new_StreamingExecutor None) ''git'' [''pull'', ''origin'']
              ''Pulling'' \<lparr>opt_cwd = None, opt_maxLines = None, opt_showOutput = None\<rparr> True True"
  let ?before = "run ?start [StdoutData (''one'' @ [CHR 0x0A]) 1000]"
  have nr: "\<not> resolved ?before"
    by (simp add: executeWithSpinner_def execute_def new_StreamingExecutor_def
        display_only_fields [OF display_only_processOutput])
  have l: "log ?before = [SpinnerStart ''Pulling'']"
    by (simp add: executeWithSpinner_def execute_def new_StreamingExecutor_def
        processOutput_def addToBuffer_def trim_def is_space_def Let_def)
  have b: "outputBuffer (foldl addToBuffer ?before (buffered_lines (''two'' @ [CHR 0x0A])))
             = [''one'', ''two'']"
    by (simp add: executeWithSpinner_def execute_def new_StreamingExecutor_def buffered_lines_def
        processOutput_def addToBuffer_def trim_def is_space_def Let_def)
  have sp: "currentSpinner ?before"
    using nr spinner_skips_display_updates [of "new_StreamingExecutor None" "''git''"
        "[''pull'', ''origin'']" "''Pulling''"
        "\<lparr>opt_cwd = None, opt_maxLines = None, opt_showOutput = None\<rparr>" True True
        "[StdoutData (''one'' @ [CHR 0x0A]) 1000]" "''two'' @ [CHR 0x0A]" 5000]
    by blast
  have "log (step ?before (StdoutData (''two'' @ [CHR 0x0A]) 5000)) = log ?before
      \<and> outputBuffer (step ?before (StdoutData (''two'' @ [CHR 0x0A]) 5000))
          = outputBuffer (foldl addToBuffer ?before (buffered_lines (''two'' @ [CHR 0x0A])))"
    using sp spinner_skips_display_updates [of "new_StreamingExecutor None" "''git''"
        "[''pull'', ''origin'']" "''Pulling''"
        "\<lparr>opt_cwd = None, opt_maxLines = None, opt_showOutput = None\<rparr>" True True
        "[StdoutData (''one'' @ [CHR 0x0A]) 1000]" "''two'' @ [CHR 0x0A]" 5000]
    by blast
  then show ?thesis using sp by (simp only: l b)
qed

text \<open>
  Claim C6 as stated fails: an execution started through \<^verbatim>\<open>executeWithSpinner\<close> has
  \<^verbatim>\<open>showOutput\<close> true and a spinner; a line of output arriving five seconds after the last
  redraw is buffered, but nothing is written: the log holds the start of the spinner only.
\<close>

theorem no_display_update_under_spinner:
  "log (run (executeWithSpinner (new_StreamingExecutor None) ''git'' [''pull'', ''origin'']
              ''Pulling'' \<lparr>opt_cwd = None, opt_maxLines = None, opt_showOutput = None\<rparr> True True)
            [StdoutData (''hello'' @ [CHR 0x0A]) 5000]) = [SpinnerStart ''Pulling'']
   \<and> outputBuffer (run (executeWithSpinner (new_StreamingExecutor None) ''git'' [''pull'', ''origin'']
              ''Pulling'' \<lparr>opt_cwd = None, opt_maxLines = None, opt_showOutput = None\<rparr> True True)
            [StdoutData (''hello'' @ [CHR 0x0A]) 5000]) = [''hello'']
   \<and> showOutput (executeWithSpinner (new_StreamingExecutor None) ''git'' [''pull'', ''origin'']
              ''Pulling'' \<lparr>opt_cwd = None, opt_maxLines = None, opt_showOutput = None\<rparr> True True)
   \<and> currentSpinner (run (executeWithSpinner (new_StreamingExecutor None) ''git'' [''pull'', ''origin'']
              ''Pulling'' \<lparr>opt_cwd = None, opt_maxLines = None, opt_showOutput = None\<rparr> True True)
            [StdoutData (''hello'' @ [CHR 0x0A]) 5000])"
  by (simp add: executeWithSpinner_def execute_def new_StreamingExecutor_def
        processOutput_def addToBuffer_def trim_def is_space_def Let_def)

text \<open>Once \<^verbatim>\<open>executeWithSpinner\<close> has resumed, the spinner is gone, and output that still
  arrives is drawn.\<close>

lemma late_output_is_drawn:
  "log (run (executeWithSpinner (new_StreamingExecutor None) ''git'' [''pull'', ''origin'']
              ''Pulling'' \<lparr>opt_cwd = None, opt_maxLines = None, opt_showOutput = None\<rparr> True True)
            [Exit (Some 0), GraceTimerFires, AwaitResumes, StdoutData (''late'' @ [CHR 0x0A]) 5000])
     = [SpinnerStart ''Pulling'', ClearTimeout, Resolve, SpinnerSucceed ''Pulling'',
        StdoutWrite (CHR 0x1B # ''[2A''), StdoutWrite (CHR 0x1B # ''[0J''),
        ConsoleLog Blue (echo_prefix @ ''git pull origin''), ConsoleLog Gray ''  late'']"
  by (simp add: executeWithSpinner_def execute_def new_StreamingExecutor_def on_exit_def
        graceTimer_callback_def checkCompletion_def executeWithSpinner_resume_def settlements_def
        processOutput_def updateDisplay_def emit_def addToBuffer_def trim_def is_space_def Let_def
        command_line_def cursor_up_def erase_below_def string_of_nat.simps digit_char_def)

subsection \<open>The overall timer\<close>

text \<open>
  Claim C8. The overall timer is started with 30000 milliseconds. When it fires on an
  execution that has not been settled, the child is killed first, the display is cleared
  if \<^verbatim>\<open>showOutput\<close> is true, and the promise is then rejected with the message
  \<^verbatim>\<open>Command timed out after 30 seconds: \<close> followed by the command and its arguments
  separated by spaces. On an execution that has been settled the timer has been cleared,
  and its firing changes nothing; the callback itself returns at once when the flag
  \<^verbatim>\<open>resolved\<close> is set.
\<close>

theorem overall_timeout_kills_then_rejects:
  "overallTimeout (execute this cmd as opts so se) = Some 30000
   \<and> (\<not> resolved (run (execute this cmd as opts so se) evs) \<longrightarrow>
        log (step (run (execute this cmd as opts so se) evs) OverallTimeoutFires)
          = log (run (execute this cmd as opts so se) evs)
            @ [ChildKill]
            @ (if showOutput (run (execute this cmd as opts so se) evs)
               then clear_writes (outputBuffer (run (execute this cmd as opts so se) evs)) else [])
            @ [Reject (Error (''Command timed out after 30 seconds: ''
                               @ cmd @ '' '' @ join '' '' as))]
        \<and> resolved (step (run (execute this cmd as opts so se) evs) OverallTimeoutFires))
   \<and> (resolved (run (execute this cmd as opts so se) evs) \<longrightarrow>
        step (run (execute this cmd as opts so se) evs) OverallTimeoutFires
          = run (execute this cmd as opts so se) evs)
   \<and> (resolved s \<longrightarrow> overallTimeout_callback s = s)"
proof -
  let ?before = "run (execute this cmd as opts so se) evs"
  have c: "consistent ?before" by (simp add: consistent_run consistent_execute)
  have cl: "command_line ?before = cmd @ '' '' @ join '' '' as"
    using same_setup_run [of "execute this cmd as opts so se" evs]
    by (simp add: same_setup_def command_line_def execute_def)
  have pending: "log (step ?before OverallTimeoutFires)
          = log ?before @ [ChildKill]
            @ (if showOutput ?before then clear_writes (outputBuffer ?before) else [])
            @ [Reject (Error (''Command timed out after 30 seconds: '' @ cmd @ '' '' @ join '' '' as))]
        \<and> resolved (step ?before OverallTimeoutFires)"
    if "\<not> resolved ?before"
  proof -
    have "overallTimeout ?before \<noteq> None"
      using c that by (simp add: consistent_def)
    then obtain ms where "overallTimeout ?before = Some ms" by blast
    then show ?thesis
      using that cl by (simp add: overallTimeout_callback_eq command_line_def)
  qed
  have settled: "step ?before OverallTimeoutFires = ?before" if "resolved ?before"
  proof -
    have "overallTimeout ?before = None" using c that by (simp add: consistent_def)
    then show ?thesis by simp
  qed
  have guarded: "overallTimeout_callback s = s" if "resolved s"
    using that by (simp add: overallTimeout_callback_def)
  have "overallTimeout (execute this cmd as opts so se) = Some 30000"
    by (simp add: execute_def)
  then show ?thesis using pending settled guarded by blast
qed

theorem overall_timeout_kills_then_rejects_witness:
  "\<not> resolved (run (fixture None None False) [Exit None])
   \<and> log (step (run (fixture None None False) [Exit None]) OverallTimeoutFires)
     = [ChildKill, Reject (Error ''Command timed out after 30 seconds: git pull origin'')]
   \<and> resolved (run (fixture None None False) [Exit None, GraceTimerFires])
   \<and> step (run (fixture None None False) [Exit None, GraceTimerFires]) OverallTimeoutFires
       = run (fixture None None False) [Exit None, GraceTimerFires]"
proof -
  let ?exec = "new_StreamingExecutor None\<lparr>currentSpinner := False\<rparr>"
  let ?opts = "\<lparr>opt_cwd = None, opt_maxLines = Some 3, opt_showOutput = None\<rparr>"
  let ?start = "execute ?exec ''git'' [''pull'', ''origin''] ?opts True True"
  have f: "fixture None None False = ?start" by (simp add: fixture_def)
  have a: "\<not> resolved (run ?start [Exit None])"
    by (simp add: execute_def new_StreamingExecutor_def on_exit_def checkCompletion_def)
  have b: "resolved (run ?start [Exit None, GraceTimerFires])"
    by (simp add: execute_def new_StreamingExecutor_def on_exit_def checkCompletion_def
        graceTimer_callback_def emit_def)
  have l: "log (run ?start [Exit None]) = []"
    by (simp add: execute_def new_StreamingExecutor_def on_exit_def checkCompletion_def)
  have o: "outputBuffer (run ?start [Exit None]) = []"
    by (simp add: execute_def new_StreamingExecutor_def on_exit_def checkCompletion_def)
  have "log (step (run ?start [Exit None]) OverallTimeoutFires)
          = log (run ?start [Exit None]) @ [ChildKill]
            @ (if showOutput (run ?start [Exit None])
               then clear_writes (outputBuffer (run ?start [Exit None])) else [])
            @ [Reject (Error (''Command timed out after 30 seconds: ''
                               @ ''git'' @ '' '' @ join '' '' [''pull'', ''origin'']))]"
    using a overall_timeout_kills_then_rejects
            [of ?exec "''git''" "[''pull'', ''origin'']" ?opts True True "[Exit None]"]
    by blast
  then have 1: "log (step (run ?start [Exit None]) OverallTimeoutFires)
     = [ChildKill, Reject (Error ''Command timed out after 30 seconds: git pull origin'')]"
    by (simp only: l o) (simp add: clear_writes_def)
  have 2: "step (run ?start [Exit None, GraceTimerFires]) OverallTimeoutFires
       = run ?start [Exit None, GraceTimerFires]"
    using b overall_timeout_kills_then_rejects
            [of ?exec "''git''" "[''pull'', ''origin'']" ?opts True True "[Exit None, GraceTimerFires]"]
    by blast
  show ?thesis
    using a b 1 2 by (simp only: f) blast
qed

subsection \<open>The message of a failed command\<close>

text \<open>When the completion check settles an execution whose exit code is not 0, the
  rejection carries the exit code, and the buffered lines only if \<^verbatim>\<open>showOutput\<close> is
  true: otherwise the buffer is emptied first.\<close>

lemma failed_command_rejection:
  assumes "processExited s" "stdoutEnded s" "stderrEnded s" "\<not> resolved s"
    and "exitCode s = Some code" and "code \<noteq> 0"
  shows "log (checkCompletion s)
           = log s @ [ClearTimeout]
               @ (if showOutput s then [] else clear_writes (outputBuffer s))
               @ [Reject (Error (''Command failed with exit code '' @ string_of_int code
                    @ (if showOutput s \<and> outputBuffer s \<noteq> []
                       then CHR 0x0A # join [CHR 0x0A] (outputBuffer s) else [])))]"
  using assms
  by (simp add: checkCompletion_ready completion_settle_def failure_message_def)

text \<open>
  Claim C4 on a concrete execution. One line of output is buffered, the process exits with
  code 2 and both streams end. With \<^verbatim>\<open>showOutput\<close> true the rejection carries the exit
  code and the buffered line. With \<^verbatim>\<open>showOutput\<close> false the buffer still holds the line
  when the last event arrives, but the completion check clears the display, and with it the
  buffer, before it builds the message: the rejection carries the exit code only.
\<close>

theorem failure_message_loses_output_without_showOutput:
  "outputBuffer (run (fixture None (Some False) False)
       [StdoutData (''boom'' @ [CHR 0x0A]) 5, Exit (Some 2), StdoutEnd]) = [''boom'']
   \<and> settlements (run (fixture None (Some False) False)
       [StdoutData (''boom'' @ [CHR 0x0A]) 5, Exit (Some 2), StdoutEnd, StderrEnd])
       = [Reject (Error ''Command failed with exit code 2'')]
   \<and> settlements (run (fixture None (Some True) False)
       [StdoutData (''boom'' @ [CHR 0x0A]) 5, Exit (Some 2), StdoutEnd, StderrEnd])
       = [Reject (Error (''Command failed with exit code 2'' @ [CHR 0x0A] @ ''boom''))]"
  by (simp add: fixture_def execute_def new_StreamingExecutor_def on_exit_def checkCompletion_def
        processOutput_def updateDisplay_def clearDisplay_def emit_def addToBuffer_def trim_def
        is_space_def Let_def settlements_def string_of_int_def string_of_nat.simps digit_char_def)

subsection \<open>Exit codes that count as success\<close>

lemma succeeding_checkCompletion: "succeeding s \<Longrightarrow> succeeding (checkCompletion s)"
  by (cases "processExited s \<and> stdoutEnded s \<and> stderrEnded s \<and> \<not> resolved s")
     (auto simp: checkCompletion_ready checkCompletion_idle succeeding_def settlements_def
        completion_settle_def)

lemma succeeding_step:
  assumes u: "succeeding s" and ne: "\<not> ends_execution e"
    and ex: "exits_with None e \<or> exits_with (Some 0) e"
  shows "succeeding (step s e)"
proof (cases e)
  case AwaitResumes
  then show ?thesis
    using u by (simp add: succeeding_def await_resumes_fields settlements_await_resumes del: step.simps)
next
  case (StdoutData d now)
  then show ?thesis
    using u by (simp add: succeeding_def settlements_processOutput
        display_only_fields [OF display_only_processOutput])
next
  case (StderrData d now)
  then show ?thesis
    using u by (simp add: succeeding_def settlements_processOutput
        display_only_fields [OF display_only_processOutput])
next
  case StdoutEnd
  have "succeeding (checkCompletion (s\<lparr>stdoutEnded := True\<rparr>))"
    by (rule succeeding_checkCompletion) (use u in \<open>simp add: succeeding_def settlements_def\<close>)
  then show ?thesis using StdoutEnd u by simp
next
  case StderrEnd
  have "succeeding (checkCompletion (s\<lparr>stderrEnded := True\<rparr>))"
    by (rule succeeding_checkCompletion) (use u in \<open>simp add: succeeding_def settlements_def\<close>)
  then show ?thesis using StderrEnd u by simp
next
  case (Exit code)
  then have "code = None \<or> code = Some 0" using ex by auto
  then have "succeeding (checkCompletion (s\<lparr>processExited := True, exitCode := code,
                                       graceTimers := graceTimers s @ [100]\<rparr>))"
    by (intro succeeding_checkCompletion) (use u in \<open>simp add: succeeding_def settlements_def\<close>)
  then show ?thesis using Exit by (simp add: on_exit_def)
next
  case (ChildError err)
  then show ?thesis using ne by simp
next
  case OverallTimeoutFires
  then show ?thesis using ne by simp
next
  case GraceTimerFires
  show ?thesis
  proof (cases "graceTimers s")
    case Nil
    then show ?thesis using GraceTimerFires u by simp
  next
    case (Cons m rest)
    have "succeeding (checkCompletion (s\<lparr>graceTimers := rest, stdoutEnded := True, stderrEnded := True\<rparr>))"
      by (rule succeeding_checkCompletion) (use u in \<open>simp add: succeeding_def settlements_def\<close>)
    moreover have "succeeding (s\<lparr>graceTimers := rest\<rparr>)"
      using u by (simp add: succeeding_def settlements_def)
    ultimately show ?thesis using GraceTimerFires Cons
      by (simp add: graceTimer_callback_def)
  qed
qed

lemma succeeding_run:
  "succeeding s \<Longrightarrow>
   \<forall>e\<in>set evs. \<not> ends_execution e \<and> (exits_with None e \<or> exits_with (Some 0) e) \<Longrightarrow>
   succeeding (run s evs)"
  by (induction evs arbitrary: s) (simp_all add: succeeding_step)

lemma succeeding_execute: "succeeding (execute this cmd as opts so se)"
  by (simp add: succeeding_def execute_def settlements_def)

lemma addToBuffer_exitCode:
  "addToBuffer (s\<lparr>exitCode := c\<rparr>) l = (addToBuffer s l)\<lparr>exitCode := c\<rparr>"
  by (simp add: addToBuffer_def Let_def)

lemma addLines_exitCode:
  "foldl (\<lambda>t line. (addToBuffer t (trim line))\<lparr>hasOutput := True\<rparr>) (s\<lparr>exitCode := c\<rparr>) ls
     = (foldl (\<lambda>t line. (addToBuffer t (trim line))\<lparr>hasOutput := True\<rparr>) s ls)\<lparr>exitCode := c\<rparr>"
proof (induction ls arbitrary: s)
  case Nil
  show ?case by simp
next
  case (Cons l ls)
  have "(addToBuffer (s\<lparr>exitCode := c\<rparr>) (trim l))\<lparr>hasOutput := True\<rparr>
          = ((addToBuffer s (trim l))\<lparr>hasOutput := True\<rparr>)\<lparr>exitCode := c\<rparr>"
    by (simp add: addToBuffer_exitCode)
  then show ?case using Cons.IH by simp
qed

lemma updateDisplay_exitCode:
  "updateDisplay (s\<lparr>exitCode := c\<rparr>) cmd = (updateDisplay s cmd)\<lparr>exitCode := c\<rparr>"
  by (simp add: updateDisplay_def emit_def Let_def)

lemma processOutput_exitCode:
  "processOutput (s\<lparr>exitCode := c\<rparr>) d b now = (processOutput s d b now)\<lparr>exitCode := c\<rparr>"
  by (simp add: processOutput_def Let_def addLines_exitCode updateDisplay_exitCode command_line_def)

lemma null_for_zero_refl: "null_for_zero s s"
  by (simp add: null_for_zero_def)

lemma null_for_zero_checkCompletion:
  assumes "null_for_zero s t"
  shows "null_for_zero (checkCompletion s) (checkCompletion t)"
proof -
  have t: "t = s\<lparr>exitCode := exitCode t\<rparr>"
    and c: "exitCode s = exitCode t \<or> exitCode s = None \<and> exitCode t = Some 0"
    using assms by (simp_all add: null_for_zero_def)
  have settle: "completion_settle (exitCode t) buf = completion_settle (exitCode s) buf" for buf
    using c by (auto simp: completion_settle_def)
  have fl: "processExited t = processExited s" "stdoutEnded t = stdoutEnded s"
    "stderrEnded t = stderrEnded s" "resolved t = resolved s"
    by (subst t, simp)+
  show ?thesis
  proof (cases "processExited s \<and> stdoutEnded s \<and> stderrEnded s \<and> \<not> resolved s")
    case True
    then have rt: "processExited t" "stdoutEnded t" "stderrEnded t" "\<not> resolved t"
      by (simp_all add: fl)
    have so: "showOutput t = showOutput s" and lg: "log t = log s"
      and ob: "outputBuffer t = outputBuffer s"
      by (subst t, simp)+
    define L where "L = log s @ [ClearTimeout]
                @ (if showOutput s then [] else clear_writes (outputBuffer s))
                @ [completion_settle (exitCode s) (if showOutput s then outputBuffer s else [])]"
    define B where "B = (if showOutput s then outputBuffer s else [])"
    define upd where "upd = (\<lambda>u::execution.
        u\<lparr>resolved := True, overallTimeout := None, log := L, outputBuffer := B\<rparr>)"
    have cs: "checkCompletion s = upd s"
      using True by (simp add: checkCompletion_ready upd_def L_def B_def)
    have ct: "checkCompletion t = upd t"
      by (simp add: checkCompletion_ready [OF rt] so lg ob settle upd_def L_def B_def)
    have "upd (s\<lparr>exitCode := exitCode t\<rparr>) = (upd s)\<lparr>exitCode := exitCode t\<rparr>"
      by (simp add: upd_def)
    then have "upd t = (upd s)\<lparr>exitCode := exitCode t\<rparr>"
      using t by simp
    then have "checkCompletion t = (checkCompletion s)\<lparr>exitCode := exitCode t\<rparr>"
      by (simp only: cs ct)
    then show ?thesis using c True by (simp add: null_for_zero_def checkCompletion_ready)
  next
    case False
    then have "\<not> (processExited t \<and> stdoutEnded t \<and> stderrEnded t \<and> \<not> resolved t)"
      by (simp add: fl)
    then have "checkCompletion t = t" by (rule checkCompletion_idle)
    moreover have "checkCompletion s = s" using False by (rule checkCompletion_idle)
    ultimately show ?thesis using assms by simp
  qed
qed

lemma null_for_zero_update:
  "null_for_zero s t \<Longrightarrow> null_for_zero (f s) (f t)"
  if "\<And>u c. f (u\<lparr>exitCode := c\<rparr>) = (f u)\<lparr>exitCode := c\<rparr>" and "\<And>u. exitCode (f u) = exitCode u"
proof -
  assume a: "null_for_zero s t"
  then have t: "t = s\<lparr>exitCode := exitCode t\<rparr>" by (simp add: null_for_zero_def)
  have "f t = (f s)\<lparr>exitCode := exitCode t\<rparr>" by (subst t) (rule that(1))
  then show ?thesis using a that(2) by (simp add: null_for_zero_def)
qed

lemma null_for_zero_step:
  assumes r: "null_for_zero s t"
  shows "null_for_zero (step s e) (step t (null_as_zero e))"
proof -
  have t: "t = s\<lparr>exitCode := exitCode t\<rparr>" using r by (simp add: null_for_zero_def)
  have same: "hasStdout t = hasStdout s" "hasStderr t = hasStderr s"
    "overallTimeout t = overallTimeout s" "graceTimers t = graceTimers s"
    by (subst t, simp)+
  show ?thesis
  proof (cases e)
    case AwaitResumes
    have "null_for_zero (step s AwaitResumes) (step t AwaitResumes)"
      using r by (rule null_for_zero_update [rotated 2])
        (simp_all add: await_resumes_exitCode await_resumes_fields del: step.simps)
    then show ?thesis using AwaitResumes by (simp del: step.simps)
  next
    case (StdoutData d now)
    have "null_for_zero (processOutput s d False now) (processOutput t d False now)"
      using r by (rule null_for_zero_update [rotated 2])
        (simp_all add: processOutput_exitCode display_only_fields [OF display_only_processOutput])
    then show ?thesis using StdoutData same r by simp
  next
    case (StderrData d now)
    have "null_for_zero (processOutput s d True now) (processOutput t d True now)"
      using r by (rule null_for_zero_update [rotated 2])
        (simp_all add: processOutput_exitCode display_only_fields [OF display_only_processOutput])
    then show ?thesis using StderrData same r by simp
  next
    case StdoutEnd
    have "null_for_zero (s\<lparr>stdoutEnded := True\<rparr>) (t\<lparr>stdoutEnded := True\<rparr>)"
      using r by (rule null_for_zero_update [rotated 2]) simp_all
    then have "null_for_zero (checkCompletion (s\<lparr>stdoutEnded := True\<rparr>))
                 (checkCompletion (t\<lparr>stdoutEnded := True\<rparr>))"
      by (rule null_for_zero_checkCompletion)
    then show ?thesis using StdoutEnd same r by simp
  next
    case StderrEnd
    have "null_for_zero (s\<lparr>stderrEnded := True\<rparr>) (t\<lparr>stderrEnded := True\<rparr>)"
      using r by (rule null_for_zero_update [rotated 2]) simp_all
    then have "null_for_zero (checkCompletion (s\<lparr>stderrEnded := True\<rparr>))
                 (checkCompletion (t\<lparr>stderrEnded := True\<rparr>))"
      by (rule null_for_zero_checkCompletion)
    then show ?thesis using StderrEnd same r by simp
  next
    case (Exit code)
    define code' where "code' = (case code of None \<Rightarrow> Some (0::int) | Some n \<Rightarrow> Some n)"
    have e': "null_as_zero e = Exit code'"
      using Exit by (cases code) (simp_all add: code'_def)
    have "t\<lparr>processExited := True, exitCode := code', graceTimers := graceTimers t @ [100]\<rparr>
            = (s\<lparr>processExited := True, exitCode := code, graceTimers := graceTimers s @ [100]\<rparr>)
                \<lparr>exitCode := code'\<rparr>"
      by (subst t, subst (2) t) simp
    then have "null_for_zero
                 (s\<lparr>processExited := True, exitCode := code, graceTimers := graceTimers s @ [100]\<rparr>)
                 (t\<lparr>processExited := True, exitCode := code', graceTimers := graceTimers t @ [100]\<rparr>)"
      by (cases code) (simp_all add: null_for_zero_def code'_def)
    then show ?thesis
      using Exit e' by (simp add: on_exit_def null_for_zero_checkCompletion)
  next
    case (ChildError err)
    have "null_for_zero (on_error s err) (on_error t err)"
      using r by (rule null_for_zero_update [rotated 2]) (simp_all add: on_error_eq)
    then show ?thesis using ChildError by simp
  next
    case OverallTimeoutFires
    show ?thesis
    proof (cases "overallTimeout s")
      case None
      then show ?thesis using OverallTimeoutFires same r by simp
    next
      case (Some ms)
      have "null_for_zero (overallTimeout_callback (s\<lparr>overallTimeout := None\<rparr>))
              (overallTimeout_callback (t\<lparr>overallTimeout := None\<rparr>))"
        using r by (rule null_for_zero_update [rotated 2])
          (simp_all add: overallTimeout_callback_eq command_line_def)
      then show ?thesis using OverallTimeoutFires Some same by simp
    qed
  next
    case GraceTimerFires
    show ?thesis
    proof (cases "graceTimers s")
      case Nil
      then show ?thesis using GraceTimerFires same r by simp
    next
      case (Cons m rest)
      have rs: "resolved t = resolved s" by (subst t) simp
      have "null_for_zero (s\<lparr>graceTimers := rest, stdoutEnded := True, stderrEnded := True\<rparr>)
              (t\<lparr>graceTimers := rest, stdoutEnded := True, stderrEnded := True\<rparr>)"
        using r by (rule null_for_zero_update [rotated 2]) simp_all
      then have 1: "null_for_zero
              (checkCompletion (s\<lparr>graceTimers := rest, stdoutEnded := True, stderrEnded := True\<rparr>))
              (checkCompletion (t\<lparr>graceTimers := rest, stdoutEnded := True, stderrEnded := True\<rparr>))"
        by (rule null_for_zero_checkCompletion)
      have 2: "null_for_zero (s\<lparr>graceTimers := rest\<rparr>) (t\<lparr>graceTimers := rest\<rparr>)"
        using r by (rule null_for_zero_update [rotated 2]) simp_all
      show ?thesis
        using GraceTimerFires Cons same rs 1 2 by (simp add: graceTimer_callback_def)
    qed
  qed
qed

lemma null_for_zero_run:
  "null_for_zero s t \<Longrightarrow> null_for_zero (run s evs) (run t (map null_as_zero evs))"
  by (induction evs arbitrary: s t) (simp_all add: null_for_zero_step)

lemma signals_resolve:
  assumes "\<exists>code. Exit code \<in> set evs"
    and "so \<longrightarrow> StdoutEnd \<in> set evs" and "se \<longrightarrow> StderrEnd \<in> set evs"
  shows "resolved (run (execute this cmd as opts so se) evs)"
proof -
  let ?start = "execute this cmd as opts so se"
  let ?final = "run ?start evs"
  have c: "consistent ?final" by (simp add: consistent_run consistent_execute)
  have streams: "hasStdout ?final = so" "hasStderr ?final = se"
    "hasStdout ?start = so" "hasStderr ?start = se"
    using same_setup_run [of ?start evs] by (simp_all add: same_setup_def execute_def)
  have "processExited ?final" using assms(1) exit_seen by blast
  moreover have "stdoutEnded ?final"
  proof (cases so)
    case True
    then show ?thesis using assms(2) streams(3) stdout_end_seen by blast
  next
    case False
    then show ?thesis using c streams(1) by (simp add: consistent_def)
  qed
  moreover have "stderrEnded ?final"
  proof (cases se)
    case True
    then show ?thesis using assms(3) streams(4) stderr_end_seen by blast
  next
    case False
    then show ?thesis using c streams(2) by (simp add: consistent_def)
  qed
  ultimately show ?thesis using c by (simp add: consistent_def)
qed

lemma settlements_stay:
  assumes "resolved s" shows "settlements (step s e) = settlements s"
proof (cases e)
  case AwaitResumes
  then show ?thesis by (simp add: settlements_await_resumes del: step.simps)
next
  case (StdoutData d now)
  then show ?thesis by (simp add: settlements_processOutput)
next
  case (StderrData d now)
  then show ?thesis by (simp add: settlements_processOutput)
next
  case StdoutEnd
  then show ?thesis using assms by (simp add: checkCompletion_idle settlements_def)
next
  case StderrEnd
  then show ?thesis using assms by (simp add: checkCompletion_idle settlements_def)
next
  case (Exit code)
  then show ?thesis using assms by (simp add: on_exit_def checkCompletion_idle settlements_def)
next
  case (ChildError err)
  then show ?thesis using assms by (simp add: on_error_eq)
next
  case OverallTimeoutFires
  then show ?thesis using assms
    by (cases "overallTimeout s") (simp_all add: overallTimeout_callback_eq settlements_def)
next
  case GraceTimerFires
  then show ?thesis using assms
    by (cases "graceTimers s") (simp_all add: graceTimer_callback_def settlements_def)
qed

lemma settlements_stay_run:
  "resolved s \<Longrightarrow> settlements (run s evs) = settlements s"
proof (induction evs arbitrary: s)
  case Nil
  show ?case by simp
next
  case (Cons e evs)
  have "resolved (step s e)"
    using Cons.prems progress_step [of s e] by (simp add: progress_def)
  then have "settlements (run (step s e) evs) = settlements (step s e)" by (rule Cons.IH)
  then show ?case using Cons.prems by (simp add: settlements_stay)
qed

subsection \<open>The grace timer\<close>

lemma awaiting_grace_after_exit: "awaiting_grace (step s (Exit code))"
  using same_flags_checkCompletion
    [of "s\<lparr>processExited := True, exitCode := code, graceTimers := graceTimers s @ [100]\<rparr>"]
  by (simp add: awaiting_grace_def on_exit_def same_flags_def)

lemma resolved_after_grace:
  assumes "awaiting_grace s" shows "resolved (step s GraceTimerFires)"
proof (cases "graceTimers s")
  case Nil
  then show ?thesis using assms by (simp add: awaiting_grace_def)
next
  case (Cons m rest)
  show ?thesis
  proof (cases "resolved s")
    case True
    then show ?thesis using Cons by (simp add: graceTimer_callback_def)
  next
    case False
    then show ?thesis
      using Cons assms by (simp add: graceTimer_callback_def checkCompletion_ready awaiting_grace_def)
  qed
qed

lemma awaiting_grace_step:
  assumes a: "awaiting_grace s" shows "awaiting_grace (step s e)"
proof (cases "e = GraceTimerFires")
  case True
  then show ?thesis
    using resolved_after_grace [OF a] progress_step [of s e] a
    by (simp add: awaiting_grace_def progress_def)
next
  case False
  have p: "processExited (step s e)" "resolved s \<longrightarrow> resolved (step s e)"
    using progress_step [of s e] a by (simp_all add: awaiting_grace_def progress_def)
  have "graceTimers (step s e) \<noteq> [] \<or> resolved (step s e)"
  proof (cases e)
    case AwaitResumes
    then show ?thesis using a by (simp add: awaiting_grace_def await_resumes_fields del: step.simps)
  next
    case (StdoutData d now)
    then show ?thesis
      using a by (simp add: awaiting_grace_def display_only_fields [OF display_only_processOutput])
  next
    case (StderrData d now)
    then show ?thesis
      using a by (simp add: awaiting_grace_def display_only_fields [OF display_only_processOutput])
  next
    case StdoutEnd
    then show ?thesis
      using a p(2) same_flags_checkCompletion [of "s\<lparr>stdoutEnded := True\<rparr>"]
      by (auto simp: awaiting_grace_def same_flags_def)
  next
    case StderrEnd
    then show ?thesis
      using a p(2) same_flags_checkCompletion [of "s\<lparr>stderrEnded := True\<rparr>"]
      by (auto simp: awaiting_grace_def same_flags_def)
  next
    case (Exit code)
    then show ?thesis using awaiting_grace_after_exit [of s code] by (simp add: awaiting_grace_def)
  next
    case (ChildError err)
    then show ?thesis by (simp add: on_error_eq)
  next
    case OverallTimeoutFires
    then show ?thesis using a
      by (cases "overallTimeout s") (auto simp: awaiting_grace_def overallTimeout_callback_eq)
  next
    case GraceTimerFires
    then show ?thesis using False by simp
  qed
  then show ?thesis using p(1) by (simp add: awaiting_grace_def)
qed

lemma grace_fires_resolved:
  "awaiting_grace s \<Longrightarrow> GraceTimerFires \<in> set evs \<Longrightarrow> resolved (run s evs)"
proof (induction evs arbitrary: s)
  case Nil
  then show ?case by simp
next
  case (Cons e evs)
  show ?case
  proof (cases "e = GraceTimerFires")
    case True
    then have "resolved (step s e)" using Cons.prems(1) by (simp only: resolved_after_grace)
    then show ?thesis using progress_run [of "step s e" evs] by (simp add: progress_def)
  next
    case False
    moreover have "awaiting_grace (step s e)" using Cons.prems(1) by (rule awaiting_grace_step)
    ultimately show ?thesis using Cons by simp
  qed
qed

lemma grace_elapsed_resolved: "grace_elapsed evs \<Longrightarrow> resolved (run s evs)"
proof (induction evs arbitrary: s rule: grace_elapsed.induct)
  case 1
  then show ?case by simp
next
  case (2 code evs)
  then show ?case
    using grace_fires_resolved [OF awaiting_grace_after_exit, of evs s code] by simp
qed simp_all

text \<open>
  Claim C7. A null exit code is treated exactly as exit code 0: replacing every null exit
  code by 0 in the events of an execution changes neither what the execution does to the
  outside world nor whether it is settled. And an execution that is not ended by the
  overall timer or an error of the child, whose exit event carries a null code, and that
  has received the end of each stream the child has or the firing of the grace timer after
  the exit, has resolved its promise, whatever happens afterwards.
\<close>

theorem null_exit_code_resolves:
  "log (run (execute this cmd as opts so se) (map null_as_zero evs))
     = log (run (execute this cmd as opts so se) evs)
   \<and> resolved (run (execute this cmd as opts so se) (map null_as_zero evs))
     = resolved (run (execute this cmd as opts so se) evs)
   \<and> ((\<forall>e\<in>set evs. \<not> ends_execution e \<and> exits_with None e) \<and> Exit None \<in> set evs
        \<and> ((so \<longrightarrow> StdoutEnd \<in> set evs) \<and> (se \<longrightarrow> StderrEnd \<in> set evs) \<or> grace_elapsed evs)
       \<longrightarrow> settlements (run (execute this cmd as opts so se) (evs @ post)) = [Resolve])"
proof -
  let ?start = "execute this cmd as opts so se"
  have "null_for_zero (run ?start evs) (run ?start (map null_as_zero evs))"
    by (rule null_for_zero_run) (rule null_for_zero_refl)
  then have eq: "run ?start (map null_as_zero evs)
                   = (run ?start evs)\<lparr>exitCode := exitCode (run ?start (map null_as_zero evs))\<rparr>"
    by (simp add: null_for_zero_def)
  have same_log: "log (run ?start (map null_as_zero evs)) = log (run ?start evs)"
    by (subst eq) simp
  have same_resolved: "resolved (run ?start (map null_as_zero evs)) = resolved (run ?start evs)"
    by (subst eq) simp
  have ok: "settlements (run ?start (evs @ post)) = [Resolve]"
    if clean: "\<forall>e\<in>set evs. \<not> ends_execution e \<and> exits_with None e"
      and ex: "Exit None \<in> set evs"
      and sig: "(so \<longrightarrow> StdoutEnd \<in> set evs) \<and> (se \<longrightarrow> StderrEnd \<in> set evs) \<or> grace_elapsed evs"
  proof -
    have "succeeding (run ?start evs)"
      by (rule succeeding_run) (use clean in \<open>simp_all add: succeeding_execute\<close>)
    moreover have r: "resolved (run ?start evs)"
      using sig ex signals_resolve [of evs so se this cmd as opts] grace_elapsed_resolved [of evs ?start]
      by blast
    ultimately have "settlements (run ?start evs) = [Resolve]" by (simp add: succeeding_def)
    then show ?thesis using r by (simp add: run_append settlements_stay_run)
  qed
  show ?thesis using same_log same_resolved ok by blast
qed

theorem null_exit_code_resolves_witness:
  "settlements (run (fixture None None False)
      ([StdoutEnd, Exit None, StderrEnd] @ [OverallTimeoutFires])) = [Resolve]
   \<and> settlements (run (fixture None None False)
      ([Exit None, GraceTimerFires] @ [])) = [Resolve]"
proof -
  let ?exec = "new_StreamingExecutor None\<lparr>currentSpinner := False\<rparr>"
  let ?opts = "\<lparr>opt_cwd = None, opt_maxLines = Some 3, opt_showOutput = None\<rparr>"
  have 1: "(\<forall>e\<in>set [StdoutEnd, Exit None, StderrEnd]. \<not> ends_execution e \<and> exits_with None e)
        \<and> Exit None \<in> set [StdoutEnd, Exit None, StderrEnd]
        \<and> ((True \<longrightarrow> StdoutEnd \<in> set [StdoutEnd, Exit None, StderrEnd])
             \<and> (True \<longrightarrow> StderrEnd \<in> set [StdoutEnd, Exit None, StderrEnd])
            \<or> grace_elapsed [StdoutEnd, Exit None, StderrEnd])"
    by simp
  have 2: "(\<forall>e\<in>set [Exit None, GraceTimerFires]. \<not> ends_execution e \<and> exits_with None e)
        \<and> Exit None \<in> set [Exit None, GraceTimerFires]
        \<and> ((True \<longrightarrow> StdoutEnd \<in> set [Exit None, GraceTimerFires])
             \<and> (True \<longrightarrow> StderrEnd \<in> set [Exit None, GraceTimerFires])
            \<or> grace_elapsed [Exit None, GraceTimerFires])"
    by simp
  show ?thesis
    using 1 2
      null_exit_code_resolves [of ?exec "''git''" "[''pull'', ''origin'']" ?opts True True
        "[StdoutEnd, Exit None, StderrEnd]" "[OverallTimeoutFires]"]
      null_exit_code_resolves [of ?exec "''git''" "[''pull'', ''origin'']" ?opts True True
        "[Exit None, GraceTimerFires]" "[]"]
    unfolding fixture_def by blast
qed

text \<open>
  Claim C9. The exit handler starts a grace timer of 100 milliseconds. When that timer fires
  on an execution that is not yet settled, both streams are marked as ended and the
  completion check settles the promise. So an execution that is not ended by the overall
  timer or an error of the child, whose process exits with code 0, has resolved its promise
  once the grace timer has fired after the exit, whether or not a stream has emitted its
  end event, and whatever happens afterwards.
\<close>

theorem grace_timer_forces_completion:
  "graceTimers (step s (Exit code)) = graceTimers s @ [100]
   \<and> (processExited s \<and> \<not> resolved s \<and> graceTimers s \<noteq> []
        \<longrightarrow> stdoutEnded (step s GraceTimerFires) \<and> stderrEnded (step s GraceTimerFires)
            \<and> resolved (step s GraceTimerFires))
   \<and> ((\<forall>e\<in>set evs. \<not> ends_execution e \<and> exits_with (Some 0) e) \<and> grace_elapsed evs
        \<longrightarrow> settlements (run (execute this cmd as opts so se) (evs @ post)) = [Resolve])"
proof -
  let ?start = "execute this cmd as opts so se"
  have timer: "graceTimers (step s (Exit code)) = graceTimers s @ [100]"
    using same_flags_checkCompletion
      [of "s\<lparr>processExited := True, exitCode := code, graceTimers := graceTimers s @ [100]\<rparr>"]
    by (simp add: on_exit_def same_flags_def)
  have forced: "stdoutEnded (step s GraceTimerFires) \<and> stderrEnded (step s GraceTimerFires)
                \<and> resolved (step s GraceTimerFires)"
    if pe: "processExited s" and nr: "\<not> resolved s" and gt: "graceTimers s \<noteq> []"
  proof -
    obtain ms rest where "graceTimers s = ms # rest"
      using gt by (cases "graceTimers s") simp_all
    then show ?thesis
      using pe nr by (simp add: graceTimer_callback_def checkCompletion_ready)
  qed
  have ok: "settlements (run ?start (evs @ post)) = [Resolve]"
    if clean: "\<forall>e\<in>set evs. \<not> ends_execution e \<and> exits_with (Some 0) e"
      and g: "grace_elapsed evs"
  proof -
    have "succeeding (run ?start evs)"
      by (rule succeeding_run) (use clean in \<open>simp_all add: succeeding_execute\<close>)
    moreover have r: "resolved (run ?start evs)"
      using g by (rule grace_elapsed_resolved)
    ultimately have "settlements (run ?start evs) = [Resolve]" by (simp add: succeeding_def)
    then show ?thesis using r by (simp add: run_append settlements_stay_run)
  qed
  show ?thesis using timer forced ok by blast
qed

theorem grace_timer_forces_completion_witness:
  "settlements (run (fixture None None False)
      ([StdoutData (''done'' @ [CHR 0x0A]) 20, Exit (Some 0), StderrEnd, GraceTimerFires]
       @ [OverallTimeoutFires])) = [Resolve]"
proof -
  let ?exec = "new_StreamingExecutor None\<lparr>currentSpinner := False\<rparr>"
  let ?opts = "\<lparr>opt_cwd = None, opt_maxLines = Some 3, opt_showOutput = None\<rparr>"
  let ?evs = "[StdoutData (''done'' @ [CHR 0x0A]) 20, Exit (Some 0), StderrEnd, GraceTimerFires]"
  have 1: "(\<forall>e\<in>set ?evs. \<not> ends_execution e \<and> exits_with (Some 0) e) \<and> grace_elapsed ?evs"
    by simp
  show ?thesis
    using 1 grace_timer_forces_completion [of "execute ?exec [] [] ?opts True True" "Some 0" ?evs ?exec "''git''" "[''pull'', ''origin'']"
        ?opts True True "[OverallTimeoutFires]"]
    unfolding fixture_def by blast
qed

end
